theory Spec2Isabelle
  imports Main
begin

section \<open>Data model of howm.c\<close>

text \<open>
  A \<^verbatim>\<open>Client *\<close> is an optional address: \<open>None\<close> is \<^verbatim>\<open>NULL\<close>. The heap maps the
  addresses of the blocks that \<^verbatim>\<open>calloc\<close> has handed out and \<^verbatim>\<open>free\<close> has not yet
  taken back to their contents. Window ids (\<^verbatim>\<open>xcb_window_t\<close>) are only ever compared for
  equality and are natural numbers here. The field \<^verbatim>\<open>next\<close> is called \<open>nxt\<close> and
  the geometry fields carry the prefix \<open>c_\<close>, since the C names are reserved or would
  capture variables.
\<close>

type_synonym addr = nat
type_synonym ptr = "addr option"
type_synonym window = nat

record Client =
  nxt :: ptr
  c_x :: int
  c_y :: int
  c_w :: int
  c_h :: int
  is_fullscreen :: bool
  is_floating :: bool
  is_transient :: bool
  win :: window

record Workspace =
  ws_layout :: nat
  ws_head :: ptr
  ws_prev_foc :: ptr
  ws_current :: ptr

text \<open>
  \<^verbatim>\<open>config.h\<close> is not part of the sources at hand: the constants it defines are the
  fields of a configuration that every function takes. The array \<^verbatim>\<open>workspaces\<close> it
  declares has \<open>WORKSPACES\<close> slots.
\<close>

record config =
  WORKSPACES :: nat
  GAP :: int
  BORDER_PX :: int
  ZOOM_GAP :: bool
  FOCUS_MOUSE :: bool

text \<open>The file-scope variables of howm.c that the window-arrangement core reads and writes.\<close>

record state =
  heap :: "addr \<Rightarrow> Client option"
  head :: ptr
  prev_foc :: ptr
  current :: ptr
  current_workspace :: nat
  prev_workspace :: nat
  layout :: nat
  prev_layout :: nat
  screen_height :: int
  screen_width :: int
  workspaces :: "nat \<Rightarrow> Workspace"

text \<open>
  What stops a run of the C program, as values: reading or writing through \<^verbatim>\<open>NULL\<close>,
  through an address that is not allocated, an index outside an array, a division by
  zero, the \<^verbatim>\<open>err\<close> exit after a failed allocation, an allocator that returns a block
  still in use (excluded by the contract of \<^verbatim>\<open>calloc\<close>), and a list traversal that has
  not come to an end within the iteration bound the functions take.
\<close>

datatype fault = Null_Deref | Not_Allocated | Bad_Index | Div_By_Zero | Alloc_Failure
  | Block_In_Use | Out_Of_Fuel

definition bnd :: "fault + 'a \<Rightarrow> ('a \<Rightarrow> fault + 'b) \<Rightarrow> fault + 'b" where
  "bnd m f = (case m of Inl e \<Rightarrow> Inl e | Inr v \<Rightarrow> f v)"

definition deref :: "state \<Rightarrow> ptr \<Rightarrow> fault + Client" where
  "deref s p =
     (case p of None \<Rightarrow> Inl Null_Deref
      | Some a \<Rightarrow> (case heap s a of None \<Rightarrow> Inl Not_Allocated | Some c \<Rightarrow> Inr c))"

text \<open>The macro \<^verbatim>\<open>FFT\<close>; it reads the variable \<^verbatim>\<open>c\<close> of the place that uses it, whatever
  its argument.\<close>

definition FFT :: "Client \<Rightarrow> bool" where
  "FFT c = (is_transient c \<or> is_floating c \<or> is_fullscreen c)"

text \<open>The nodes that \<^verbatim>\<open>for (c = p; c; c = c->next)\<close> visits, in at most \<open>n\<close> steps.\<close>

fun clients_from :: "nat \<Rightarrow> (addr \<Rightarrow> Client option) \<Rightarrow> ptr \<Rightarrow> fault + addr list" where
  "clients_from n h None = Inr []"
| "clients_from 0 h (Some a) = Inl Out_Of_Fuel"
| "clients_from (Suc n) h (Some a) =
     (case h a of None \<Rightarrow> Inl Not_Allocated
      | Some c \<Rightarrow> bnd (clients_from n h (nxt c)) (\<lambda>as. Inr (a # as)))"

text \<open>A null-terminated list in the heap: \<open>clist h p as\<close> says that following \<open>nxt\<close>
  from \<open>p\<close> visits exactly the allocated nodes \<open>as\<close> and then reaches \<^verbatim>\<open>NULL\<close>.\<close>

fun clist :: "(addr \<Rightarrow> Client option) \<Rightarrow> ptr \<Rightarrow> addr list \<Rightarrow> bool" where
  "clist h p [] = (p = None)"
| "clist h p (a # as) =
     (p = Some a \<and> (case h a of None \<Rightarrow> False | Some c \<Rightarrow> clist h (nxt c) as))"

section \<open>Workspaces\<close>

definition save_workspace :: "config \<Rightarrow> int \<Rightarrow> state \<Rightarrow> state" where
  "save_workspace cfg i s =
     (if i < 0 \<or> i \<ge> int (WORKSPACES cfg) then s
      else s\<lparr>workspaces := (workspaces s)(nat i :=
             \<lparr>ws_layout = layout s, ws_head = head s, ws_prev_foc = prev_foc s,
              ws_current = current s\<rparr>)\<rparr>)"

text \<open>\<^verbatim>\<open>select_workspace\<close> reads \<^verbatim>\<open>workspaces[i]\<close> unguarded.\<close>

definition select_workspace :: "config \<Rightarrow> int \<Rightarrow> state \<Rightarrow> fault + state" where
  "select_workspace cfg i s =
     (let s1 = save_workspace cfg (int (current_workspace s)) s in
      if i < 0 \<or> i \<ge> int (WORKSPACES cfg) then Inl Bad_Index
      else let slot = workspaces s1 (nat i) in
        Inr (s1\<lparr>layout := ws_layout slot, current := ws_current slot, head := ws_head slot,
                prev_foc := ws_prev_foc slot, current_workspace := nat i\<rparr>))"

section \<open>The client list\<close>

fun prev_client_loop :: "nat \<Rightarrow> (addr \<Rightarrow> Client option) \<Rightarrow> addr \<Rightarrow> ptr \<Rightarrow> fault + ptr" where
  "prev_client_loop 0 h p c = Inl Out_Of_Fuel"
| "prev_client_loop (Suc n) h p c =
     (case h p of None \<Rightarrow> Inl Not_Allocated
      | Some pc \<Rightarrow>
          (case nxt pc of None \<Rightarrow> Inr (Some p)
           | Some q \<Rightarrow> if Some q = c then Inr (Some p) else prev_client_loop n h q c))"

definition prev_client :: "nat \<Rightarrow> ptr \<Rightarrow> state \<Rightarrow> fault + ptr" where
  "prev_client n c s =
     (if c = None then Inr None
      else bnd (deref s (head s)) (\<lambda>hc.
        if nxt hc = None then Inr None
        else prev_client_loop n (heap s) (the (head s)) c))"

definition upd_client :: "ptr \<Rightarrow> (Client \<Rightarrow> Client) \<Rightarrow> state \<Rightarrow> fault + state" where
  "upd_client p f s =
     (case p of None \<Rightarrow> Inl Null_Deref
      | Some a \<Rightarrow> (case heap s a of None \<Rightarrow> Inl Not_Allocated
          | Some c \<Rightarrow> Inr (s\<lparr>heap := (heap s)(a \<mapsto> f c)\<rparr>)))"

section \<open>Layouts\<close>

text \<open>
  A layout emits \<^verbatim>\<open>xcb_configure_window\<close> requests: a window and the four values of
  \<^verbatim>\<open>position\<close>. The requests leave the core's variables alone, so a layout returns
  the list of its requests, in order. The arguments are computed in the integers (they
  stay far from the bounds of \<^verbatim>\<open>int\<close> on any screen); \<^verbatim>\<open>xcb_move_resize\<close> then stores
  them in \<^verbatim>\<open>unsigned int position[]\<close>, where a value below 0 wraps around to
  \<open>2 ^ 32\<close> minus its size, and adds the gap there.
\<close>

type_synonym geom = "window \<times> int \<times> int \<times> int \<times> int"

definition ZOOM :: nat where "ZOOM = 0"
definition GRID :: nat where "GRID = 1"
definition HSTACK :: nat where "HSTACK = 2"
definition VSTACK :: nat where "VSTACK = 3"
definition FIBONACCI :: nat where "FIBONACCI = 4"
definition END_LAYOUT :: nat where "END_LAYOUT = 5"

lemmas layout_ids = ZOOM_def GRID_def HSTACK_def VSTACK_def FIBONACCI_def END_LAYOUT_def

definition u32 :: "int \<Rightarrow> int" where
  "u32 v = v mod 2 ^ 32"

definition xcb_move_resize :: "config \<Rightarrow> window \<Rightarrow> bool \<Rightarrow> int \<Rightarrow> int \<Rightarrow> int \<Rightarrow> int \<Rightarrow> geom" where
  "xcb_move_resize cfg wn draw_gap x y w h =
     (if draw_gap
      then (wn, u32 (x + GAP cfg), u32 (y + GAP cfg), u32 (w - 2 * GAP cfg), u32 (h - 2 * GAP cfg))
      else (wn, u32 x, u32 y, u32 w, u32 h))"

definition grid :: "state \<Rightarrow> fault + geom list" where
  "grid s = Inr []"

fun zoom_loop :: "config \<Rightarrow> nat \<Rightarrow> state \<Rightarrow> ptr \<Rightarrow> fault + geom list" where
  "zoom_loop cfg n s None = Inr []"
| "zoom_loop cfg 0 s (Some a) = Inl Out_Of_Fuel"
| "zoom_loop cfg (Suc n) s (Some a) =
     (case heap s a of None \<Rightarrow> Inl Not_Allocated
      | Some c \<Rightarrow> bnd (zoom_loop cfg n s (nxt c)) (\<lambda>gs.
          Inr ((if \<not> FFT c
                then [xcb_move_resize cfg (win c) (ZOOM_GAP cfg) 0 0 (screen_width s)
                        (screen_height s)]
                else []) @ gs)))"

definition zoom :: "config \<Rightarrow> nat \<Rightarrow> state \<Rightarrow> fault + geom list" where
  "zoom cfg n s = zoom_loop cfg n s (head s)"

fun get_non_tff_loop :: "nat \<Rightarrow> (addr \<Rightarrow> Client option) \<Rightarrow> ptr \<Rightarrow> fault + int" where
  "get_non_tff_loop n h None = Inr 0"
| "get_non_tff_loop 0 h (Some a) = Inl Out_Of_Fuel"
| "get_non_tff_loop (Suc n) h (Some a) =
     (case h a of None \<Rightarrow> Inl Not_Allocated
      | Some c \<Rightarrow> if \<not> FFT c then bnd (get_non_tff_loop n h (nxt c)) (\<lambda>k. Inr (k + 1))
                  else Inr 0)"

definition get_non_tff_count :: "nat \<Rightarrow> state \<Rightarrow> fault + int" where
  "get_non_tff_count n s = get_non_tff_loop n (heap s) (head s)"

text \<open>Division of C, which truncates towards zero.\<close>

definition c_div :: "int \<Rightarrow> int \<Rightarrow> int" where
  "c_div a b = (if (a < 0) = (b < 0) then \<bar>a\<bar> div \<bar>b\<bar> else - (\<bar>a\<bar> div \<bar>b\<bar>))"

text \<open>The loop of \<^verbatim>\<open>stack\<close> over the clients after the head: \<open>m\<close> iterations are left,
  \<open>pos\<close> is \<^verbatim>\<open>client_y\<close> (vertical) or \<^verbatim>\<open>client_x\<close> (horizontal).\<close>

fun stack_loop :: "config \<Rightarrow> state \<Rightarrow> bool \<Rightarrow> int \<Rightarrow> nat \<Rightarrow> ptr \<Rightarrow> int \<Rightarrow> fault + geom list" where
  "stack_loop cfg s vert client_span 0 c pos = Inr []"
| "stack_loop cfg s vert client_span (Suc m) c pos =
     bnd (deref s c) (\<lambda>cc.
       bnd (stack_loop cfg s vert client_span m (nxt cc) (pos + (BORDER_PX cfg + client_span)))
         (\<lambda>gs. Inr ((if vert
               then xcb_move_resize cfg (win cc) False (GAP cfg) pos
                      (screen_width s - 2 * (BORDER_PX cfg + GAP cfg))
                      (client_span - GAP cfg - BORDER_PX cfg)
               else xcb_move_resize cfg (win cc) False pos (GAP cfg)
                      (client_span - GAP cfg - BORDER_PX cfg)
                      (screen_height s - 2 * (BORDER_PX cfg + GAP cfg))) # gs)))"

text \<open>
  \<^verbatim>\<open>stack\<close>. The two calls for the head pass their arguments one place to the left of
  the parameters of \<^verbatim>\<open>xcb_move_resize (con, win, draw_gap, x, y, w, h)\<close>: the value
  meant as x or y lands in \<^verbatim>\<open>draw_gap\<close> (true when it is not 0), and the literal
  \<^verbatim>\<open>true\<close>, which is 1, lands in \<^verbatim>\<open>y\<close>.
\<close>

definition stack :: "config \<Rightarrow> nat \<Rightarrow> state \<Rightarrow> fault + geom list" where
  "stack cfg n s =
     (let vert = (layout s = VSTACK);
          span = (if vert then screen_height s else screen_width s);
          client_y = (0::int); client_x = (0::int)
      in bnd (get_non_tff_count n s) (\<lambda>k.
        if k = 0 then Inl Div_By_Zero
        else
          let client_span = c_div span k - 2 * BORDER_PX cfg in
          bnd (deref s (head s)) (\<lambda>hc.
            let first =
                  (if vert
                   then xcb_move_resize cfg (win hc) (BORDER_PX cfg \<noteq> 0) client_y 1
                          (screen_width s - 2 * BORDER_PX cfg) client_span
                   else xcb_move_resize cfg (win hc) (client_x \<noteq> 0) (BORDER_PX cfg) 1
                          client_span (screen_height s - 2 * BORDER_PX cfg));
                pos = BORDER_PX cfg + c_div span k
            in if nxt hc = None then Inr [first]
               else bnd (stack_loop cfg s vert client_span (nat (k - 1)) (nxt hc) pos)
                      (\<lambda>gs. Inr (first # gs)))))"

text \<open>\<^verbatim>\<open>fibonacci\<close> walks the list and emits nothing.\<close>

definition fibonacci :: "config \<Rightarrow> nat \<Rightarrow> state \<Rightarrow> fault + geom list" where
  "fibonacci cfg n s = bnd (clients_from n (heap s) (head s)) (\<lambda>_. Inr [])"

text \<open>The table \<^verbatim>\<open>layout_handler\<close>; it has one entry for each layout below
  \<^verbatim>\<open>END_LAYOUT\<close>.\<close>

definition layout_handler :: "config \<Rightarrow> nat \<Rightarrow> nat \<Rightarrow> state \<Rightarrow> fault + geom list" where
  "layout_handler cfg n i s =
     (if i = GRID then grid s
      else if i = ZOOM then zoom cfg n s
      else if i = HSTACK then stack cfg n s
      else if i = VSTACK then stack cfg n s
      else if i = FIBONACCI then fibonacci cfg n s
      else Inl Bad_Index)"

section \<open>Arranging\<close>

text \<open>
  \<^verbatim>\<open>workspace_info\<close> selects every workspace in turn, walks its list to count it and
  prints a line (not modelled), then comes back to the workspace it started from. The
  loop returns the final value of \<^verbatim>\<open>w\<close> with the state.
\<close>

function workspace_info_loop :: "config \<Rightarrow> nat \<Rightarrow> nat \<Rightarrow> state \<Rightarrow> fault + (nat \<times> state)" where
  "workspace_info_loop cfg n w s =
     (if w < WORKSPACES cfg
      then (case select_workspace cfg (int w) s of Inl e \<Rightarrow> Inl e
            | Inr s1 \<Rightarrow>
                (case clients_from n (heap s1) (head s1) of Inl e \<Rightarrow> Inl e
                 | Inr as \<Rightarrow> workspace_info_loop cfg n (Suc w) s1))
      else Inr (w, s))"
  by pat_completeness auto
termination
  by (relation "measure (\<lambda>(cfg, n, w, s). WORKSPACES cfg - w)") auto

declare workspace_info_loop.simps [simp del]

definition workspace_info :: "config \<Rightarrow> nat \<Rightarrow> state \<Rightarrow> fault + state" where
  "workspace_info cfg n s =
     (let cw = int (current_workspace s) in
      bnd (workspace_info_loop cfg n 0 s) (\<lambda>(w, s1).
        if cw \<noteq> int w - 1 then select_workspace cfg cw s1 else Inr s1))"

text \<open>The index \<^verbatim>\<open>head->next ? layout : ZOOM\<close> into \<^verbatim>\<open>layout_handler\<close>.\<close>

definition arrange_index :: "state \<Rightarrow> fault + nat" where
  "arrange_index s = bnd (deref s (head s)) (\<lambda>hc. Inr (if nxt hc \<noteq> None then layout s else ZOOM))"

definition arrange_windows :: "config \<Rightarrow> nat \<Rightarrow> state \<Rightarrow> fault + state" where
  "arrange_windows cfg n s =
     (if head s = None then Inr s
      else bnd (arrange_index s) (\<lambda>i.
        bnd (layout_handler cfg n i s) (\<lambda>gs. workspace_info cfg n s)))"

section \<open>Focus and stacking\<close>

text \<open>The counters of \<^verbatim>\<open>update_focused_client\<close> are \<^verbatim>\<open>unsigned int\<close>: 32 bits, wrapping.\<close>

definition inc32 :: "nat \<Rightarrow> nat" where
  "inc32 k = (k + 1) mod 2 ^ 32"

definition dec32 :: "nat \<Rightarrow> nat" where
  "dec32 k = (k + 2 ^ 32 - 1) mod 2 ^ 32"

text \<open>
  The first loop. The statement \<^verbatim>\<open>if (!c->is_fullscreen) float_trans++;\<close> is indented
  under \<^verbatim>\<open>if (FFT(c))\<close> and stands after it: it runs for every client. The triple is
  (\<^verbatim>\<open>all\<close>, \<^verbatim>\<open>fullscreen\<close>, \<^verbatim>\<open>float_trans\<close>).
\<close>

fun count_loop :: "nat \<Rightarrow> (addr \<Rightarrow> Client option) \<Rightarrow> ptr \<Rightarrow> nat \<times> nat \<times> nat
    \<Rightarrow> fault + (nat \<times> nat \<times> nat)" where
  "count_loop n h None acc = Inr acc"
| "count_loop 0 h (Some a) acc = Inl Out_Of_Fuel"
| "count_loop (Suc n) h (Some a) (al, fs, ft) =
     (case h a of None \<Rightarrow> Inl Not_Allocated
      | Some c \<Rightarrow> count_loop n h (nxt c)
          (inc32 al, if FFT c then inc32 fs else fs,
           if \<not> is_fullscreen c then inc32 ft else ft))"

text \<open>The second loop: the indices of \<^verbatim>\<open>windows\<close> it writes, in order, and the value
  of \<^verbatim>\<open>all\<close> it leaves.\<close>

fun band_loop :: "nat \<Rightarrow> state \<Rightarrow> ptr \<Rightarrow> nat \<times> nat \<times> nat \<Rightarrow> fault + (nat list \<times> nat)" where
  "band_loop n s None (al, fs, ft) = Inr ([], al)"
| "band_loop 0 s (Some a) acc = Inl Out_Of_Fuel"
| "band_loop (Suc n) s (Some a) (al, fs, ft) =
     (case heap s a of None \<Rightarrow> Inl Not_Allocated
      | Some c \<Rightarrow>
          if Some a \<noteq> current s
          then (if is_fullscreen c
                then bnd (band_loop n s (nxt c) (al, dec32 fs, ft))
                       (\<lambda>(ws, al'). Inr (dec32 fs # ws, al'))
                else if FFT c
                then bnd (band_loop n s (nxt c) (al, fs, dec32 ft))
                       (\<lambda>(ws, al'). Inr (dec32 ft # ws, al'))
                else bnd (band_loop n s (nxt c) (dec32 al, fs, ft))
                       (\<lambda>(ws, al'). Inr (dec32 al # ws, al')))
          else band_loop n s (nxt c) (al, fs, ft))"

text \<open>
  The accesses to the array \<^verbatim>\<open>xcb_window_t windows[all]\<close>: its length, the indices
  written (the slot of \<^verbatim>\<open>current\<close> first, then those of the second loop) and the
  indices read by the last loop, \<^verbatim>\<open>windows[all - float_trans]\<close> for \<^verbatim>\<open>float_trans\<close>
  from 0 up to and including \<^verbatim>\<open>all\<close>. \<^verbatim>\<open>FFT(current)\<close> reads \<^verbatim>\<open>c\<close>, which is
  \<^verbatim>\<open>head\<close> there.
\<close>

definition stacking_accesses :: "nat \<Rightarrow> state \<Rightarrow> fault + (nat \<times> nat list \<times> nat list)" where
  "stacking_accesses n s =
     bnd (count_loop n (heap s) (head s) (0, 0, 0)) (\<lambda>(al, fs, ft).
       bnd (deref s (current s)) (\<lambda>cur.
         let w0 = (if is_floating cur \<or> is_transient cur then 0 else fs) in
         bnd (deref s (head s)) (\<lambda>hc.
           let fs1 = (if FFT hc then inc32 fs else fs) in
           bnd (band_loop n s (head s) (al, fs1, ft)) (\<lambda>(ws, al').
             Inr (al, w0 # ws, map (\<lambda>k. al' - k) [0..<Suc al'])))))"

text \<open>
  \<^verbatim>\<open>update_focused_client\<close>. An index outside \<^verbatim>\<open>windows\<close> does not stop the model:
  what the array holds only decides which window ids the raise requests name, and
  \<open>stacking_accesses\<close> reports the indices.
\<close>

definition update_focused_client :: "config \<Rightarrow> nat \<Rightarrow> ptr \<Rightarrow> state \<Rightarrow> fault + state" where
  "update_focused_client cfg n c s =
     (if head s = None then Inr (s\<lparr>prev_foc := None, current := None\<rparr>)
      else
        bnd (if c = prev_foc s
             then (let s1 = s\<lparr>current := (if prev_foc s \<noteq> None then prev_foc s else head s)\<rparr>
                   in bnd (prev_client n (current s1) s1) (\<lambda>p. Inr (s1\<lparr>prev_foc := p\<rparr>)))
             else if c \<noteq> current s then Inr (s\<lparr>prev_foc := current s, current := c\<rparr>)
             else Inr s)
          (\<lambda>s2. bnd (stacking_accesses n s2) (\<lambda>acc. arrange_windows cfg n s2)))"

section \<open>Finding, creating and removing clients\<close>

text \<open>The inner loop of \<^verbatim>\<open>win_to_client\<close>: the value of \<^verbatim>\<open>c\<close> when it ends;
  \<^verbatim>\<open>found\<close> is true exactly when that is not \<^verbatim>\<open>NULL\<close>.\<close>

fun find_win :: "nat \<Rightarrow> (addr \<Rightarrow> Client option) \<Rightarrow> ptr \<Rightarrow> window \<Rightarrow> fault + ptr" where
  "find_win n h None wn = Inr None"
| "find_win 0 h (Some a) wn = Inl Out_Of_Fuel"
| "find_win (Suc n) h (Some a) wn =
     (case h a of None \<Rightarrow> Inl Not_Allocated
      | Some c \<Rightarrow> if wn = win c then Inr (Some a) else find_win n h (nxt c) wn)"

function win_to_client_loop :: "config \<Rightarrow> nat \<Rightarrow> window \<Rightarrow> nat \<Rightarrow> state
    \<Rightarrow> fault + (nat \<times> ptr \<times> state)" where
  "win_to_client_loop cfg n wn w s =
     (if w < WORKSPACES cfg
      then (case select_workspace cfg (int w) s of Inl e \<Rightarrow> Inl e
            | Inr s1 \<Rightarrow>
                (case find_win n (heap s1) (head s1) wn of Inl e \<Rightarrow> Inl e
                 | Inr c \<Rightarrow> if c \<noteq> None then Inr (Suc w, c, s1)
                            else win_to_client_loop cfg n wn (Suc w) s1))
      else Inr (w, None, s))"
  by pat_completeness auto
termination
  by (relation "measure (\<lambda>(cfg, n, wn, w, s). WORKSPACES cfg - w)") auto

declare win_to_client_loop.simps [simp del]

definition win_to_client :: "config \<Rightarrow> nat \<Rightarrow> window \<Rightarrow> state \<Rightarrow> fault + (ptr \<times> state)" where
  "win_to_client cfg n wn s =
     (let cw = int (current_workspace s) in
      bnd (win_to_client_loop cfg n wn 0 s) (\<lambda>(w, c, s1).
        if cw \<noteq> int w - 1 then bnd (select_workspace cfg cw s1) (\<lambda>s2. Inr (c, s2))
        else Inr (c, s1)))"

text \<open>A block as \<^verbatim>\<open>calloc\<close> returns it: all bits zero.\<close>

definition zero_client :: Client where
  "zero_client = \<lparr>nxt = None, c_x = 0, c_y = 0, c_w = 0, c_h = 0, is_fullscreen = False,
     is_floating = False, is_transient = False, win = 0\<rparr>"

text \<open>
  \<^verbatim>\<open>client_from_window\<close>. The answer of \<^verbatim>\<open>calloc\<close> is the argument \<open>a\<close>: \<^verbatim>\<open>NULL\<close>, or
  the address of a block that is not in use.
\<close>

definition client_from_window :: "config \<Rightarrow> nat \<Rightarrow> ptr \<Rightarrow> window \<Rightarrow> state \<Rightarrow> fault + (ptr \<times> state)" where
  "client_from_window cfg n a wn s =
     (case a of
        None \<Rightarrow> bnd (prev_client n (head s) s) (\<lambda>t. Inl Alloc_Failure)
      | Some ca \<Rightarrow>
          if heap s ca \<noteq> None then Inl Block_In_Use
          else
            let s1 = s\<lparr>heap := (heap s)(ca \<mapsto> zero_client)\<rparr> in
            bnd (prev_client n (head s1) s1) (\<lambda>t.
              bnd (if head s1 = None then Inr (s1\<lparr>head := a\<rparr>)
                   else if t \<noteq> None then upd_client t (\<lambda>c. c\<lparr>nxt := a\<rparr>) s1
                   else upd_client (head s1) (\<lambda>c. c\<lparr>nxt := a\<rparr>) s1) (\<lambda>s2.
                bnd (upd_client a (\<lambda>c. c\<lparr>win := wn\<rparr>) s2) (\<lambda>s3. Inr (a, s3)))))"

text \<open>
  \<^verbatim>\<open>map_request_event\<close>. \<open>wa\<close> is the reply to the attributes request (\<open>None\<close>: no
  reply; otherwise its \<^verbatim>\<open>override_redirect\<close>), \<open>transient\<close> the window the new one is
  transient for (0: none), \<open>a\<close> the answer of \<^verbatim>\<open>calloc\<close>.
\<close>

definition map_request_event :: "config \<Rightarrow> nat \<Rightarrow> window \<Rightarrow> bool option \<Rightarrow> window \<Rightarrow> ptr \<Rightarrow> state
    \<Rightarrow> fault + state" where
  "map_request_event cfg n wn wa transient a s =
     (if wa = None \<or> wa = Some True then Inr s
      else bnd (win_to_client cfg n wn s) (\<lambda>(t, s1).
        if t \<noteq> None then Inr s1
        else bnd (client_from_window cfg n a wn s1) (\<lambda>(c, s2).
          bnd (upd_client c (\<lambda>cl. cl\<lparr>is_floating := (transient \<noteq> 0),
                 is_transient := (transient \<noteq> 0)\<rparr>) s2) (\<lambda>s3.
            bnd (arrange_windows cfg n s3) (\<lambda>s4.
              update_focused_client cfg n c s4)))))"

text \<open>
  The \<^verbatim>\<open>Client **temp\<close> of \<^verbatim>\<open>remove_client\<close> points at the variable \<^verbatim>\<open>head\<close>, at the
  \<^verbatim>\<open>next\<close> field of a client, or nowhere. \<^verbatim>\<open>next\<close> is the first member of
  \<^verbatim>\<open>Client\<close>, so \<^verbatim>\<open>&(*temp)->next\<close> is the null address when \<^verbatim>\<open>*temp\<close> is \<^verbatim>\<open>NULL\<close>:
  that is what the test \<^verbatim>\<open>temp &&\<close> of the loop waits for.
\<close>

datatype loc = Head_Loc | Next_Loc addr | Null_Loc

definition read_loc :: "state \<Rightarrow> loc \<Rightarrow> fault + ptr" where
  "read_loc s l =
     (case l of Head_Loc \<Rightarrow> Inr (head s)
      | Next_Loc a \<Rightarrow> bnd (deref s (Some a)) (\<lambda>c. Inr (nxt c))
      | Null_Loc \<Rightarrow> Inl Null_Deref)"

definition write_loc :: "loc \<Rightarrow> ptr \<Rightarrow> state \<Rightarrow> fault + state" where
  "write_loc l v s =
     (case l of Head_Loc \<Rightarrow> Inr (s\<lparr>head := v\<rparr>)
      | Next_Loc a \<Rightarrow> upd_client (Some a) (\<lambda>c. c\<lparr>nxt := v\<rparr>) s
      | Null_Loc \<Rightarrow> Inl Null_Deref)"

text \<open>The inner loop of \<^verbatim>\<open>remove_client\<close>: the final \<^verbatim>\<open>temp\<close> and \<^verbatim>\<open>found\<close>.\<close>

fun remove_find :: "nat \<Rightarrow> state \<Rightarrow> ptr \<Rightarrow> loc \<Rightarrow> fault + (loc \<times> bool)" where
  "remove_find n s c Null_Loc = Inr (Null_Loc, False)"
| "remove_find 0 s c l = Inl Out_Of_Fuel"
| "remove_find (Suc n) s c l =
     bnd (read_loc s l) (\<lambda>v.
       if v = c then Inr (l, True)
       else remove_find n s c (case v of None \<Rightarrow> Null_Loc | Some a \<Rightarrow> Next_Loc a))"

text \<open>The outer loop; every round selects \<^verbatim>\<open>cw\<close>, the workspace that was current on
  entry, whatever \<^verbatim>\<open>w\<close> is.\<close>

function remove_client_loop :: "config \<Rightarrow> nat \<Rightarrow> ptr \<Rightarrow> int \<Rightarrow> nat \<Rightarrow> loc \<Rightarrow> state
    \<Rightarrow> fault + (nat \<times> loc \<times> state)" where
  "remove_client_loop cfg n c cw w temp s =
     (if w < WORKSPACES cfg
      then (case select_workspace cfg cw s of Inl e \<Rightarrow> Inl e
            | Inr s1 \<Rightarrow>
                (case remove_find n s1 c Head_Loc of Inl e \<Rightarrow> Inl e
                 | Inr (temp1, found) \<Rightarrow>
                     if found then Inr (Suc w, temp1, s1)
                     else remove_client_loop cfg n c cw (Suc w) temp1 s1))
      else Inr (w, temp, s))"
  by pat_completeness auto
termination
  by (relation "measure (\<lambda>(cfg, n, c, cw, w, temp, s). WORKSPACES cfg - w)") auto

declare remove_client_loop.simps [simp del]

definition remove_client :: "config \<Rightarrow> nat \<Rightarrow> ptr \<Rightarrow> state \<Rightarrow> fault + state" where
  "remove_client cfg n c s =
     (let cw = int (current_workspace s) in
      bnd (remove_client_loop cfg n c cw 0 Null_Loc s) (\<lambda>(w, temp, s1).
        bnd (deref s1 c) (\<lambda>cc.
          bnd (write_loc temp (nxt cc) s1) (\<lambda>s2.
            bnd (if c = prev_foc s2
                 then bnd (prev_client n c s2) (\<lambda>p. Inr (s2\<lparr>prev_foc := p\<rparr>))
                 else Inr s2) (\<lambda>s3.
              let s4 = (if c = head s3 then s3\<lparr>head := None\<rparr> else s3) in
              bnd (if c = current s4 then update_focused_client cfg n (prev_foc s4) s4
                   else bnd (deref s4 (head s4)) (\<lambda>hc.
                     if nxt hc = None then update_focused_client cfg n (prev_foc s4) s4
                     else Inr s4)) (\<lambda>s5.
                let s6 = s5\<lparr>heap := (heap s5)(the c := None)\<rparr> in
                bnd (if cw = int w - 1 then arrange_windows cfg n s6
                     else select_workspace cfg cw s6) (\<lambda>s7.
                  workspace_info cfg n s7)))))))"

definition destroy_event :: "config \<Rightarrow> nat \<Rightarrow> window \<Rightarrow> state \<Rightarrow> fault + state" where
  "destroy_event cfg n wn s =
     bnd (win_to_client cfg n wn s) (\<lambda>(c, s1).
       if c \<noteq> None then remove_client cfg n c s1 else Inr s1)"

section \<open>Commands\<close>

text \<open>
  \<^verbatim>\<open>change_workspace\<close>. The two loops that map and unmap windows walk the list of the
  workspace selected at that moment.
\<close>

definition change_workspace :: "config \<Rightarrow> nat \<Rightarrow> int \<Rightarrow> state \<Rightarrow> fault + state" where
  "change_workspace cfg n i s =
     (if i \<ge> int (WORKSPACES cfg) \<or> i < 0 \<or> i = int (current_workspace s) then Inr s
      else
        let s0 = s\<lparr>prev_workspace := current_workspace s\<rparr> in
        bnd (select_workspace cfg i s0) (\<lambda>s1.
          bnd (clients_from n (heap s1) (head s1)) (\<lambda>mapped.
            bnd (select_workspace cfg (int (prev_workspace s1)) s1) (\<lambda>s2.
              bnd (clients_from n (heap s2) (head s2)) (\<lambda>unmapped.
                bnd (select_workspace cfg i s2) (\<lambda>s3.
                  bnd (arrange_windows cfg n s3) (\<lambda>s4.
                    bnd (update_focused_client cfg n (current s4) s4) (\<lambda>s5.
                      workspace_info cfg n s5))))))))"

text \<open>\<^verbatim>\<open>change_layout\<close>. The test \<^verbatim>\<open>arg->i == layout\<close> compares an \<^verbatim>\<open>int\<close> with an
  \<^verbatim>\<open>unsigned int\<close>: the \<^verbatim>\<open>int\<close> is taken modulo \<open>2 ^ 32\<close>.\<close>

definition change_layout :: "config \<Rightarrow> nat \<Rightarrow> int \<Rightarrow> state \<Rightarrow> fault + state" where
  "change_layout cfg n i s =
     (if i mod 2 ^ 32 = int (layout s) \<or> i \<ge> int END_LAYOUT \<or> i < 0 then Inr s
      else
        let s1 = s\<lparr>prev_layout := layout s, layout := nat i\<rparr> in
        bnd (arrange_windows cfg n s1) (\<lambda>s2.
          bnd (update_focused_client cfg n (current s2) s2) (\<lambda>s3.
            workspace_info cfg n s3)))"

section \<open>Runs\<close>

text \<open>The variables at program start: file-scope variables of C are zero; \<^verbatim>\<open>setup\<close>
  stores the size of the screen.\<close>

definition init_state :: "int \<Rightarrow> int \<Rightarrow> state" where
  "init_state sw sh =
     \<lparr>heap = (\<lambda>a. None), head = None, prev_foc = None, current = None,
      current_workspace = 0, prev_workspace = 0, layout = ZOOM, prev_layout = ZOOM,
      screen_height = sh, screen_width = sw,
      workspaces = (\<lambda>i. \<lparr>ws_layout = ZOOM, ws_head = None, ws_prev_foc = None,
                           ws_current = None\<rparr>)\<rparr>"

text \<open>The notifications and key commands the claims speak of, with what the outside
  world answers during their handling.\<close>

datatype event =
    Map_Request window "bool option" window ptr
  | Destroy_Notify window
  | Change_Workspace int
  | Change_Layout int

fun handle :: "config \<Rightarrow> nat \<Rightarrow> event \<Rightarrow> state \<Rightarrow> fault + state" where
  "handle cfg n (Map_Request wn wa transient a) s = map_request_event cfg n wn wa transient a s"
| "handle cfg n (Destroy_Notify wn) s = destroy_event cfg n wn s"
| "handle cfg n (Change_Workspace i) s = change_workspace cfg n i s"
| "handle cfg n (Change_Layout i) s = change_layout cfg n i s"

fun run :: "config \<Rightarrow> nat \<Rightarrow> event list \<Rightarrow> state \<Rightarrow> fault + state" where
  "run cfg n [] s = Inr s"
| "run cfg n (e # es) s = bnd (handle cfg n e s) (run cfg n es)"

fun create_destroy :: "event \<Rightarrow> bool" where
  "create_destroy (Map_Request wn wa transient a) = True"
| "create_destroy (Destroy_Notify wn) = True"
| "create_destroy e = False"

section \<open>What selecting a workspace amounts to\<close>

text \<open>
  Three abbreviations for the proofs. \<open>snapshot\<close> is the slot that \<^verbatim>\<open>save_workspace\<close>
  writes, \<open>flush\<close> the state after \<^verbatim>\<open>save_workspace(current_workspace)\<close> and \<open>load w\<close>
  the state after the four assignments of \<^verbatim>\<open>select_workspace(w)\<close> that follow the save.
\<close>

definition snapshot :: "state \<Rightarrow> Workspace" where
  "snapshot s = \<lparr>ws_layout = layout s, ws_head = head s, ws_prev_foc = prev_foc s,
     ws_current = current s\<rparr>"

definition flush :: "state \<Rightarrow> state" where
  "flush s = s\<lparr>workspaces := (workspaces s)(current_workspace s := snapshot s)\<rparr>"

definition load :: "nat \<Rightarrow> state \<Rightarrow> state" where
  "load w s = s\<lparr>layout := ws_layout (workspaces s w), current := ws_current (workspaces s w),
     head := ws_head (workspaces s w), prev_foc := ws_prev_foc (workspaces s w),
     current_workspace := w\<rparr>"

section \<open>The state between two notifications\<close>

text \<open>
  What holds of the state whenever a create or destroy notification has been handled, as
  long as no workspace switch has happened: workspace 0 is active and its slot is up to
  date, the other slots are empty, and \<^verbatim>\<open>head\<close> starts a null-terminated list.
\<close>

definition at_rest :: "state \<Rightarrow> bool" where
  "at_rest s \<longleftrightarrow>
     current_workspace s = 0 \<and> flush s = s \<and>
     (\<forall>w. w \<noteq> 0 \<longrightarrow> ws_head (workspaces s w) = None) \<and>
     (\<exists>as. clist (heap s) (head s) as)"

text \<open>
  Three more predicates for the proof that create and destroy notifications are handled
  without a fault. \<open>quiet\<close>: workspace 0 is active and the other slots are empty.
  \<open>focus_ok\<close>: the focus variables point into the list \<open>as\<close>, and \<^verbatim>\<open>prev_foc\<close> is null
  when the list has fewer than two clients. \<open>calm\<close>: the state between two
  notifications, with its list named.
\<close>

definition quiet :: "state \<Rightarrow> bool" where
  "quiet s \<longleftrightarrow> current_workspace s = 0 \<and> (\<forall>w. w \<noteq> 0 \<longrightarrow> ws_head (workspaces s w) = None)"

definition focus_ok :: "state \<Rightarrow> addr list \<Rightarrow> bool" where
  "focus_ok s as \<longleftrightarrow>
     (as = [] \<longrightarrow> current s = None) \<and> (as \<noteq> [] \<longrightarrow> current s \<in> Some ` set as) \<and>
     (prev_foc s = None \<or> prev_foc s \<in> Some ` set as) \<and>
     (length as \<le> 1 \<longrightarrow> prev_foc s = None)"

definition calm :: "state \<Rightarrow> addr list \<Rightarrow> bool" where
  "calm s as \<longleftrightarrow>
     quiet s \<and> flush s = s \<and> clist (heap s) (head s) as \<and> layout s = ZOOM \<and> focus_ok s as"

section \<open>States in which a switch and a focus change return\<close>

text \<open>
  \<open>can_arrange h p lay\<close>: the layout \<open>lay\<close> can be applied to the list that starts at
  \<open>p\<close>. \<^verbatim>\<open>zoom\<close>, \<^verbatim>\<open>grid\<close> and \<^verbatim>\<open>fibonacci\<close> only walk the list; \<^verbatim>\<open>stack\<close> divides by the
  number of clients before the first floating, transient or fullscreen one, which is 0
  exactly when the head is such a client.
\<close>

definition can_arrange :: "(addr \<Rightarrow> Client option) \<Rightarrow> ptr \<Rightarrow> nat \<Rightarrow> bool" where
  "can_arrange h p lay \<longleftrightarrow>
     lay = ZOOM \<or> lay = GRID \<or> lay = FIBONACCI \<or>
     ((lay = HSTACK \<or> lay = VSTACK) \<and>
      (case p of None \<Rightarrow> False
       | Some a \<Rightarrow> (case h a of None \<Rightarrow> False | Some c \<Rightarrow> \<not> FFT c)))"

text \<open>
  \<open>walkable\<close>: the index of the active workspace is valid and every workspace has a
  null-terminated list of at most \<open>n\<close> clients, the active one in the live variables and
  the others in their slots.
\<close>

definition walkable :: "config \<Rightarrow> nat \<Rightarrow> state \<Rightarrow> bool" where
  "walkable cfg n s \<longleftrightarrow>
     current_workspace s < WORKSPACES cfg \<and>
     (\<forall>w<WORKSPACES cfg.
        \<exists>as. clist (heap s) (ws_head (workspaces (flush s) w)) as \<and> length as \<le> n)"

text \<open>
  \<open>ws_ok\<close>: a workspace has a null-terminated list of at most \<open>n\<close> clients, its
  \<^verbatim>\<open>current\<close> is one of them unless the list is empty, its \<^verbatim>\<open>prev_foc\<close> is null or one of
  them, and its layout can be applied if there are two clients or more (a single client
  is always zoomed). \<open>settled\<close>: that holds of every workspace, and the index of the
  active one is valid.
\<close>

definition ws_ok :: "nat \<Rightarrow> (addr \<Rightarrow> Client option) \<Rightarrow> Workspace \<Rightarrow> bool" where
  "ws_ok n h ws \<longleftrightarrow>
     (\<exists>as. clist h (ws_head ws) as \<and> length as \<le> n \<and>
        (as \<noteq> [] \<longrightarrow> ws_current ws \<in> Some ` set as) \<and>
        (ws_prev_foc ws = None \<or> ws_prev_foc ws \<in> Some ` set as) \<and>
        (2 \<le> length as \<longrightarrow> can_arrange h (ws_head ws) (ws_layout ws)))"

definition settled :: "config \<Rightarrow> nat \<Rightarrow> state \<Rightarrow> bool" where
  "settled cfg n s \<longleftrightarrow>
     current_workspace s < WORKSPACES cfg \<and>
     (\<forall>w<WORKSPACES cfg. ws_ok n (heap s) (workspaces (flush s) w))"

section \<open>Example configuration and states\<close>

text \<open>Two workspaces, no gap, no border; an iteration bound of four.\<close>

definition cfg2 :: config where
  "cfg2 = \<lparr>WORKSPACES = 2, GAP = 0, BORDER_PX = 0, ZOOM_GAP = False, FOCUS_MOUSE = False\<rparr>"

definition fuel :: nat where
  "fuel = Suc (Suc (Suc (Suc 0)))"

definition tiled :: "window \<Rightarrow> ptr \<Rightarrow> Client" where
  "tiled wn p = zero_client\<lparr>nxt := p, win := wn\<rparr>"

text \<open>Workspace 0 holds the clients at 1, 2 and 3, in this order; the last one mapped has
  the focus.\<close>

definition three_clients :: state where
  "three_clients =
     \<lparr>heap = [1 \<mapsto> tiled 11 (Some 2), 2 \<mapsto> tiled 12 (Some 3), 3 \<mapsto> tiled 13 None],
      head = Some 1, prev_foc = Some 2, current = Some 3,
      current_workspace = 0, prev_workspace = 0, layout = ZOOM, prev_layout = ZOOM,
      screen_height = 900, screen_width = 1000,
      workspaces = (\<lambda>i. \<lparr>ws_layout = ZOOM, ws_head = None, ws_prev_foc = None,
                           ws_current = None\<rparr>)
        (0 := \<lparr>ws_layout = ZOOM, ws_head = Some 1, ws_prev_foc = Some 2,
               ws_current = Some 3\<rparr>)\<rparr>"

section \<open>Evaluation\<close>

lemmas ev = bnd_def deref_def Let_def save_workspace_def select_workspace_def prev_client_def
  upd_client_def workspace_info_loop.simps workspace_info_def arrange_index_def
  arrange_windows_def layout_handler_def zoom_def grid_def stack_def get_non_tff_count_def
  c_div_def u32_def xcb_move_resize_def fibonacci_def FFT_def stacking_accesses_def
  update_focused_client_def win_to_client_loop.simps win_to_client_def zero_client_def
  client_from_window_def map_request_event_def read_loc_def write_loc_def
  remove_client_loop.simps remove_client_def destroy_event_def change_workspace_def
  change_layout_def init_state_def inc32_def dec32_def layout_ids cfg2_def fuel_def
  tiled_def three_clients_def

lemma stack_loop_numeral:
  "stack_loop cfg s vert cs (numeral k) c pos =
     stack_loop cfg s vert cs (Suc (pred_numeral k)) c pos"
  by (simp only: numeral_eq_Suc)

lemmas stack_loop_num = stack_loop_numeral [unfolded stack_loop.simps]

text \<open>A negative height as the X server receives it.\<close>

lemma xcb_move_resize_wraps:
  "xcb_move_resize cfg2 7 False 0 0 1000 (- 15) = (7, 0, 0, 1000, 4294967281)"
  by (simp add: xcb_move_resize_def u32_def)

section \<open>Lists in the heap\<close>

lemma clist_suffix: "clist h p (as @ a # bs) \<Longrightarrow> clist h (Some a) (a # bs)"
proof (induction as arbitrary: p)
  case Nil
  then show ?case by simp
next
  case (Cons x xs)
  from Cons.prems obtain c :: Client where "clist h (nxt c) (xs @ a # bs)"
    by (auto split: option.splits)
  then show ?case by (rule Cons.IH)
qed

lemma clist_unique: "clist h p as \<Longrightarrow> clist h p bs \<Longrightarrow> as = bs"
proof (induction as arbitrary: p bs)
  case Nil
  then show ?case by (cases bs) auto
next
  case (Cons a as)
  then show ?case by (cases bs) (auto split: option.splits)
qed

lemma clist_head_notin_tail:
  assumes "clist h (Some a) (a # as)"
  shows "a \<notin> set as"
proof
  assume "a \<in> set as"
  then obtain xs ys where split: "as = xs @ a # ys"
    by (auto dest: split_list)
  from assms obtain c where c: "h a = Some c" "clist h (nxt c) as"
    by (auto split: option.splits)
  from c(2) have "clist h (Some a) (a # ys)"
    unfolding split by (rule clist_suffix)
  with assms have "a # as = a # ys"
    by (rule clist_unique)
  with split show False by simp
qed

lemma clist_distinct: "clist h p as \<Longrightarrow> distinct as"
proof (induction as arbitrary: p)
  case Nil
  show ?case by simp
next
  case (Cons a as)
  from Cons.prems have "a \<notin> set as"
    using clist_head_notin_tail by fastforce
  moreover from Cons.prems Cons.IH have "distinct as"
    by (auto split: option.splits)
  ultimately show ?case by simp
qed

section \<open>The predecessor of a client\<close>

lemma prev_client_loop_found:
  "clist h (Some p) as \<Longrightarrow> Suc i < length as \<Longrightarrow> length as \<le> n
    \<Longrightarrow> prev_client_loop n h p (Some (as ! Suc i)) = Inr (Some (as ! i))"
proof (induction as arbitrary: p n i)
  case Nil
  then show ?case by simp
next
  case (Cons a as)
  from Cons.prems(1) obtain c where c: "p = a" "h a = Some c" "clist h (nxt c) as"
    by (auto split: option.splits)
  from Cons.prems(2) obtain b bs where as: "as = b # bs"
    by (cases as) auto
  with c have nx: "nxt c = Some b" by simp
  from Cons.prems(3) obtain m where n: "n = Suc m" "length as \<le> m"
    by (cases n) auto
  have dist: "distinct (a # as)"
    using Cons.prems(1) by (rule clist_distinct)
  show ?case
  proof (cases i)
    case 0
    then show ?thesis using c nx n as by simp
  next
    case (Suc k)
    have "as ! Suc k \<noteq> b"
      using dist Suc Cons.prems(2) as by (auto simp: nth_eq_iff_index_eq)
    moreover have "prev_client_loop m h b (Some (as ! Suc k)) = Inr (Some (as ! k))"
      using Cons.IH [of b k m] c(3) nx Suc Cons.prems(2) n(2) by simp
    ultimately show ?thesis using c nx n Suc by auto
  qed
qed

lemma prev_client_loop_last:
  "clist h (Some p) as \<Longrightarrow> c \<notin> Some ` set (tl as) \<Longrightarrow> length as \<le> n
    \<Longrightarrow> prev_client_loop n h p c = Inr (Some (last as))"
proof (induction as arbitrary: p n)
  case Nil
  then show ?case by simp
next
  case (Cons a as)
  from Cons.prems(1) obtain cl where cl: "p = a" "h a = Some cl" "clist h (nxt cl) as"
    by (auto split: option.splits)
  from Cons.prems(3) obtain m where n: "n = Suc m" "length as \<le> m"
    by (cases n) auto
  show ?case
  proof (cases as)
    case Nil
    then show ?thesis using cl n by simp
  next
    case (Cons b bs)
    with cl have nx: "nxt cl = Some b" by simp
    have "c \<noteq> Some b" "c \<notin> Some ` set (tl as)"
      using Cons.prems(2) Cons by auto
    moreover have "prev_client_loop m h b c = Inr (Some (last as))"
      using Cons.IH [of b m] cl(3) nx n(2) \<open>c \<notin> Some ` set (tl as)\<close> by simp
    ultimately show ?thesis using cl nx n Cons by auto
  qed
qed

lemma prev_client_cases:
  assumes "clist (heap s) (head s) as" and "length as \<le> n"
  shows "(c = None \<or> length as = 1 \<longrightarrow> prev_client n c s = Inr None) \<and>
         (Suc i < length as \<and> c = Some (as ! Suc i)
            \<longrightarrow> prev_client n c s = Inr (Some (as ! i))) \<and>
         (2 \<le> length as \<and> c \<noteq> None \<and> c \<notin> Some ` set (tl as)
            \<longrightarrow> prev_client n c s = Inr (Some (last as))) \<and>
         (as = [] \<and> c \<noteq> None \<longrightarrow> prev_client n c s = Inl Null_Deref)"
proof (cases as)
  case Nil
  with assms(1) show ?thesis
    by (simp add: prev_client_def deref_def bnd_def)
next
  case (Cons a bs)
  with assms(1) obtain hc where hc: "head s = Some a" "heap s a = Some hc"
      "clist (heap s) (nxt hc) bs"
    by (auto split: option.splits)
  have l: "clist (heap s) (Some a) as"
    using assms(1) hc(1) by simp
  show ?thesis
  proof (cases bs)
    case Nil
    with hc Cons show ?thesis
      by (simp add: prev_client_def deref_def bnd_def)
  next
    case (Cons b cs)
    with hc have nx: "nxt hc \<noteq> None" by auto
    have pc: "prev_client n c s = prev_client_loop n (heap s) a c" if "c \<noteq> None"
      using that hc nx by (auto simp: prev_client_def deref_def bnd_def)
    have "prev_client n c s = Inr (Some (as ! i))" if "Suc i < length as" "c = Some (as ! Suc i)"
      using that pc prev_client_loop_found [OF l that(1) assms(2)] by simp
    moreover have "prev_client n c s = Inr (Some (last as))"
      if "c \<noteq> None" "c \<notin> Some ` set (tl as)"
      using that pc prev_client_loop_last [OF l that(2) assms(2)] by simp
    ultimately show ?thesis
      using Cons \<open>as = a # bs\<close> by (auto simp: prev_client_def)
  qed
qed

text \<open>
  Claim C6, as the code has it. On a null-terminated list \<open>as\<close> from \<^verbatim>\<open>head\<close>, with an
  iteration bound that covers the list, \<^verbatim>\<open>prev_client(c)\<close> returns \<^verbatim>\<open>NULL\<close> when \<open>c\<close>
  is \<^verbatim>\<open>NULL\<close> or the list has one client; the node whose \<^verbatim>\<open>next\<close> is \<open>c\<close> when \<open>c\<close>
  is a member other than the head; and the last node of the list, not \<^verbatim>\<open>NULL\<close>, when
  \<open>c\<close> is the head or no member of a list of two or more clients. On the empty list a
  non-null \<open>c\<close> makes it read \<^verbatim>\<open>head->next\<close> through \<^verbatim>\<open>NULL\<close>.
\<close>

theorem prev_client_result:
  assumes "clist (heap s) (head s) as" and "length as \<le> n"
  shows "(c = None \<or> length as = 1 \<longrightarrow> prev_client n c s = Inr None) \<and>
         (Suc i < length as \<and> c = Some (as ! Suc i)
            \<longrightarrow> prev_client n c s = Inr (Some (as ! i))) \<and>
         (2 \<le> length as \<and> c \<noteq> None \<and> c \<notin> Some ` set (tl as)
            \<longrightarrow> prev_client n c s = Inr (Some (last as))) \<and>
         (as = [] \<and> c \<noteq> None \<longrightarrow> prev_client n c s = Inl Null_Deref)"
  using assms by (rule prev_client_cases)

text \<open>Witness for C6: the three clients of \<open>three_clients\<close>; the predecessor of the
  second is the first, that of the head is the last, that of \<^verbatim>\<open>NULL\<close> is \<^verbatim>\<open>NULL\<close>.\<close>

theorem prev_client_result_witness:
  "clist (heap three_clients) (head three_clients) [1, 2, 3] \<and>
   prev_client 3 (Some 2) three_clients = Inr (Some 1) \<and>
   prev_client 3 (Some 1) three_clients = Inr (Some 3) \<and>
   prev_client 3 None three_clients = Inr None"
proof -
  have l: "clist (heap three_clients) (head three_clients) [1, 2, 3]"
    by (simp add: three_clients_def tiled_def)
  have n: "length [1, 2, 3 :: addr] \<le> 3"
    by simp
  show ?thesis
    using l prev_client_result [OF l n, of "Some 2" 0] prev_client_result [OF l n, of "Some 1" 0]
      prev_client_result [OF l n, of None 0]
    by simp
qed

text \<open>
  Counterexample to C6 as stated: after three windows have been mapped, the list is
  1, 2, 3; \<^verbatim>\<open>prev_client\<close> of the head 1 is the last client 3, and so is that of the
  address 7, which is no member. The claim says none for both.
\<close>

theorem prev_client_of_head_is_last:
  "bnd (run cfg2 fuel [Map_Request 11 (Some False) 0 (Some 1),
          Map_Request 12 (Some False) 0 (Some 2), Map_Request 13 (Some False) 0 (Some 3)]
          (init_state 1000 900))
     (\<lambda>s. bnd (clients_from fuel (heap s) (head s)) (\<lambda>as.
        bnd (prev_client fuel (head s) s) (\<lambda>p.
          bnd (prev_client fuel (Some 7) s) (\<lambda>q. Inr (as, head s, p, q)))))
   = Inr ([1, 2, 3], Some 1, Some 3, Some 3)"
  by (simp add: ev)

section \<open>Commands that are ignored\<close>

text \<open>
  Claim C8. \<^verbatim>\<open>change_workspace\<close> with an index below 0, at or above \<open>WORKSPACES\<close>, or
  equal to the current workspace returns the state as it was; so does \<^verbatim>\<open>change_layout\<close>
  with an index below 0, at or above \<open>END_LAYOUT\<close>, or equal to the current layout.
  Neither reports an error.
\<close>

theorem invalid_commands_are_noops:
  "(i < 0 \<or> int (WORKSPACES cfg) \<le> i \<or> i = int (current_workspace s)
      \<longrightarrow> change_workspace cfg n i s = Inr s) \<and>
   (j < 0 \<or> int END_LAYOUT \<le> j \<or> j = int (layout s)
      \<longrightarrow> change_layout cfg n j s = Inr s)"
proof -
  have "j mod 2 ^ 32 = int (layout s)" if "j = int (layout s)" "\<not> 5 \<le> j"
    using that by simp
  then show ?thesis
    by (auto simp: change_workspace_def change_layout_def layout_ids)
qed

text \<open>Witness for C8: on the initial state with two workspaces, the workspace indices 2
  and 0 and the layout indices -1 and 0 change nothing.\<close>

theorem invalid_commands_are_noops_witness:
  "change_workspace cfg2 fuel 2 (init_state 1000 900) = Inr (init_state 1000 900) \<and>
   change_workspace cfg2 fuel 0 (init_state 1000 900) = Inr (init_state 1000 900) \<and>
   change_layout cfg2 fuel (- 1) (init_state 1000 900) = Inr (init_state 1000 900) \<and>
   change_layout cfg2 fuel 0 (init_state 1000 900) = Inr (init_state 1000 900)"
  using invalid_commands_are_noops [of 2 cfg2 "init_state 1000 900" fuel "- 1"]
    invalid_commands_are_noops [of 0 cfg2 "init_state 1000 900" fuel 0]
  by (simp add: cfg2_def init_state_def layout_ids)

section \<open>Which layout is applied\<close>

text \<open>
  Claim C4, as the code has it. On a non-empty null-terminated list \<open>as\<close> from \<^verbatim>\<open>head\<close>,
  \<^verbatim>\<open>arrange_windows\<close> calls the handler of the \<^verbatim>\<open>layout\<close> variable, except that it
  calls \<^verbatim>\<open>zoom\<close> when the list holds exactly one client (\<^verbatim>\<open>head->next\<close> is \<^verbatim>\<open>NULL\<close>);
  \<^verbatim>\<open>workspace_info\<close> follows. The count of tiled clients plays no part in the choice.
\<close>

theorem arrange_index_result:
  assumes "clist (heap s) (head s) as" and "as \<noteq> []"
  shows "arrange_index s = Inr (if length as = 1 then ZOOM else layout s) \<and>
         arrange_windows cfg n s =
           bnd (layout_handler cfg n (if length as = 1 then ZOOM else layout s) s)
             (\<lambda>gs. workspace_info cfg n s)"
proof -
  from assms obtain a bs where as: "as = a # bs"
    by (cases as) auto
  with assms(1) obtain hc where hc: "head s = Some a" "heap s a = Some hc"
      "clist (heap s) (nxt hc) bs"
    by (auto split: option.splits)
  have "nxt hc = None \<longleftrightarrow> bs = []"
    using hc(3) by (cases bs) auto
  then have idx: "arrange_index s = Inr (if length as = 1 then ZOOM else layout s)"
    using hc as by (auto simp: arrange_index_def deref_def bnd_def)
  then show ?thesis
    using hc(1) by (simp add: arrange_windows_def bnd_def)
qed

text \<open>Witness for C4: \<open>three_clients\<close> has three clients, so the index is its layout.\<close>

theorem arrange_index_result_witness:
  "clist (heap three_clients) (head three_clients) [1, 2, 3] \<and>
   arrange_index three_clients = Inr (layout three_clients)"
proof -
  have l: "clist (heap three_clients) (head three_clients) [1, 2, 3]"
    by (simp add: three_clients_def tiled_def)
  show ?thesis
    using l arrange_index_result [OF l, of cfg2 fuel] by simp
qed

text \<open>
  Counterexample to C4 as stated: with the layout set to GRID, a tiled window and then
  a transient one are mapped. The tiled count is 1, yet the index into the handler table
  is GRID, not ZOOM.
\<close>

theorem zoom_not_forced_by_tiled_count:
  "bnd (run cfg2 fuel [Change_Layout 1, Map_Request 11 (Some False) 0 (Some 1),
          Map_Request 12 (Some False) 5 (Some 2)] (init_state 1000 900))
     (\<lambda>s. bnd (get_non_tff_count fuel s) (\<lambda>k.
        bnd (arrange_index s) (\<lambda>i. Inr (k, i, i = ZOOM))))
   = Inr (1, GRID, False)"
  by (simp add: ev)

section \<open>The stack layout\<close>

text \<open>
  Claim C7, evaluated. The layout is set to VSTACK and three windows 11, 12, 13 are
  mapped on a 1000 by 900 screen with no gap and no border. \<^verbatim>\<open>arrange_windows\<close> then
  calls \<^verbatim>\<open>stack\<close>, whose requests (window, x, y, width, height) give each client the
  width 1000 and the height 300, and the vertical positions 1, 300 and 600: the head is
  placed one pixel below the top of the screen, where the claim has it at the top.
\<close>

theorem vstack_head_one_pixel_down:
  "bnd (run cfg2 fuel [Change_Layout 3, Map_Request 11 (Some False) 0 (Some 1),
          Map_Request 12 (Some False) 0 (Some 2), Map_Request 13 (Some False) 0 (Some 3)]
          (init_state 1000 900))
     (\<lambda>s. bnd (arrange_index s) (\<lambda>i.
        bnd (layout_handler cfg2 fuel i s) (\<lambda>gs. Inr (i, gs))))
   = Inr (VSTACK, [(11, 0, 1, 1000, 300), (12, 0, 300, 1000, 300), (13, 0, 600, 1000, 300)])"
  by (simp add: ev stack_loop_num)

text \<open>
  Claim C9, evaluated. The layout is set to VSTACK, a transient window is mapped and then
  a second window. When the second one is arranged the list has two clients, so \<^verbatim>\<open>stack\<close>
  runs; \<^verbatim>\<open>get_non_tff_count\<close> stops at the head, which floats, and returns 0: the
  division \<^verbatim>\<open>span / n\<close> is a division by zero.
\<close>

theorem stack_divides_by_zero:
  "run cfg2 fuel [Change_Layout 3, Map_Request 11 (Some False) 5 (Some 1),
     Map_Request 12 (Some False) 0 (Some 2)] (init_state 1000 900) = Inl Div_By_Zero"
  by (simp add: ev)

section \<open>The stacking array\<close>

text \<open>
  Claim C10, evaluated. After one window has been mapped the list has the single client
  1, which has the focus. \<^verbatim>\<open>update_focused_client\<close> on this state declares
  \<^verbatim>\<open>windows\<close> with length 1, writes index 0 and reads the indices 1 and 0: the first
  read of the last loop is one past the end.
\<close>

theorem raise_loop_reads_past_end:
  "bnd (run cfg2 fuel [Map_Request 11 (Some False) 0 (Some 1)] (init_state 1000 900))
     (\<lambda>s. bnd (clients_from fuel (heap s) (head s)) (\<lambda>as.
        bnd (stacking_accesses fuel s) (\<lambda>acc. Inr (as, current s, acc))))
   = Inr ([1], Some 1, 1, [0], [1, 0])"
  by (simp add: ev)

section \<open>Destroying a client of another workspace\<close>

text \<open>
  Claim C3, evaluated. A window is mapped on workspace 0, workspace 1 is selected, and
  the window is destroyed. \<^verbatim>\<open>win_to_client\<close> finds the client, and \<^verbatim>\<open>remove_client\<close>
  searches the list of workspace 1 in every round, ends with \<^verbatim>\<open>temp\<close> null and writes
  through it: the client is not unlinked.
\<close>

theorem destroy_on_inactive_workspace_faults:
  "run cfg2 fuel [Map_Request 11 (Some False) 0 (Some 1), Change_Workspace 1,
     Destroy_Notify 11] (init_state 1000 900) = Inl Null_Deref"
  by (simp add: ev)

section \<open>Selecting workspaces\<close>

lemma flush_fields [simp]:
  "heap (flush s) = heap s" "head (flush s) = head s" "prev_foc (flush s) = prev_foc s"
  "current (flush s) = current s" "current_workspace (flush s) = current_workspace s"
  "prev_workspace (flush s) = prev_workspace s" "layout (flush s) = layout s"
  "prev_layout (flush s) = prev_layout s" "screen_height (flush s) = screen_height s"
  "screen_width (flush s) = screen_width s"
  "workspaces (flush s) = (workspaces s)(current_workspace s := snapshot s)"
  by (simp_all add: flush_def)

lemma load_fields [simp]:
  "heap (load w s) = heap s" "head (load w s) = ws_head (workspaces s w)"
  "prev_foc (load w s) = ws_prev_foc (workspaces s w)"
  "current (load w s) = ws_current (workspaces s w)" "current_workspace (load w s) = w"
  "prev_workspace (load w s) = prev_workspace s" "layout (load w s) = ws_layout (workspaces s w)"
  "prev_layout (load w s) = prev_layout s" "screen_height (load w s) = screen_height s"
  "screen_width (load w s) = screen_width s" "workspaces (load w s) = workspaces s"
  by (simp_all add: load_def)

lemma snapshot_fields [simp]:
  "ws_layout (snapshot s) = layout s" "ws_head (snapshot s) = head s"
  "ws_prev_foc (snapshot s) = prev_foc s" "ws_current (snapshot s) = current s"
  by (simp_all add: snapshot_def)

lemma snapshot_load [simp]: "snapshot (load w s) = workspaces s w"
  by (simp add: snapshot_def)

lemma flush_load [simp]: "flush (load w s) = load w s"
  by (simp add: flush_def)

lemma load_load [simp]: "load w (load v s) = load w s"
  by (simp add: load_def)

lemma load_flush_current [simp]: "load (current_workspace s) (flush s) = flush s"
  by (simp add: load_def flush_def)

lemma flush_flush [simp]: "flush (flush s) = flush s"
  by (simp add: flush_def snapshot_def)

lemma select_workspace_valid:
  "current_workspace s < WORKSPACES cfg \<Longrightarrow> w < WORKSPACES cfg
    \<Longrightarrow> select_workspace cfg (int w) s = Inr (load w (flush s))"
  by (simp add: select_workspace_def save_workspace_def Let_def load_def flush_def snapshot_def)

lemma select_workspace_Inr:
  "select_workspace cfg i s = Inr t \<Longrightarrow> 0 \<le> i \<and> nat i < WORKSPACES cfg"
  by (auto simp: select_workspace_def Let_def split: if_splits)

lemma select_workspace_current_workspace:
  "select_workspace cfg (int w) s = Inr t \<Longrightarrow> current_workspace t = w"
  by (auto simp: select_workspace_def Let_def split: if_splits)

lemma workspace_info_loop_index:
  "workspace_info_loop cfg n w t = Inr (w', t') \<Longrightarrow> w \<le> WORKSPACES cfg
    \<Longrightarrow> w' = WORKSPACES cfg"
proof (induction cfg n w t rule: workspace_info_loop.induct)
  case (1 cfg n w s)
  show ?case
  proof (cases "w < WORKSPACES cfg")
    case True
    with "1.prems" "1.IH" show ?thesis
      by (subst (asm) workspace_info_loop.simps) (auto split: sum.splits)
  next
    case False
    with "1.prems" show ?thesis
      by (subst (asm) workspace_info_loop.simps) simp
  qed
qed

lemma workspace_info_loop_state:
  "workspace_info_loop cfg n w t = Inr (w', t') \<Longrightarrow> current_workspace t < WORKSPACES cfg
    \<Longrightarrow> t' = (if w < WORKSPACES cfg then load (WORKSPACES cfg - 1) (flush t) else t)"
proof (induction cfg n w t rule: workspace_info_loop.induct)
  case (1 cfg n w s)
  show ?case
  proof (cases "w < WORKSPACES cfg")
    case True
    from "1.prems"(2) True have sel: "select_workspace cfg (int w) s = Inr (load w (flush s))"
      by (rule select_workspace_valid)
    from "1.prems"(1) True sel obtain as where
        walk: "clients_from n (heap (load w (flush s))) (head (load w (flush s))) = Inr as"
      and rest: "workspace_info_loop cfg n (Suc w) (load w (flush s)) = Inr (w', t')"
      by (subst (asm) workspace_info_loop.simps) (auto split: sum.splits)
    have "t' = (if Suc w < WORKSPACES cfg
                then load (WORKSPACES cfg - 1) (flush (load w (flush s)))
                else load w (flush s))"
      using "1.IH" [OF True sel walk rest] True by simp
    moreover have "w = WORKSPACES cfg - 1" if "\<not> Suc w < WORKSPACES cfg"
      using that True by simp
    ultimately show ?thesis
      using True by auto
  next
    case False
    with "1.prems" show ?thesis
      by (subst (asm) workspace_info_loop.simps) simp
  qed
qed

lemma workspace_info_Inr:
  assumes "workspace_info cfg n s = Inr s'"
  shows "current_workspace s < WORKSPACES cfg \<and> s' = flush s"
proof -
  from assms obtain w t where loop: "workspace_info_loop cfg n 0 s = Inr (w, t)"
    and fin: "(if int (current_workspace s) \<noteq> int w - 1
               then select_workspace cfg (int (current_workspace s)) t else Inr t) = Inr s'"
    by (auto simp: workspace_info_def Let_def bnd_def split: sum.splits)
  from loop have w: "w = WORKSPACES cfg"
    by (rule workspace_info_loop_index) simp
  have cw: "current_workspace s < WORKSPACES cfg"
  proof (rule ccontr)
    assume "\<not> current_workspace s < WORKSPACES cfg"
    then have "int (current_workspace s) \<noteq> int w - 1"
        "select_workspace cfg (int (current_workspace s)) t = Inl Bad_Index"
      using w by (auto simp: select_workspace_def Let_def)
    with fin show False by simp
  qed
  from loop cw have t: "t = load (WORKSPACES cfg - 1) (flush s)"
    by (auto dest: workspace_info_loop_state)
  have "s' = flush s"
  proof (cases "current_workspace s = WORKSPACES cfg - 1")
    case True
    with fin w cw t have "s' = load (current_workspace s) (flush s)"
      by (auto simp: of_nat_diff)
    then show ?thesis by simp
  next
    case False
    with fin w cw have "select_workspace cfg (int (current_workspace s)) t = Inr s'"
      by (auto simp: of_nat_diff split: if_splits)
    moreover have "select_workspace cfg (int (current_workspace s)) t
        = Inr (load (current_workspace s) (flush t))"
      using cw t by (intro select_workspace_valid) simp_all
    ultimately have "s' = load (current_workspace s) (flush s)"
      using t by simp
    then show ?thesis by simp
  qed
  with cw show ?thesis by simp
qed

lemma win_to_client_loop_index:
  "win_to_client_loop cfg n wn w t = Inr (w', c, t') \<Longrightarrow> w \<le> WORKSPACES cfg
    \<Longrightarrow> w' \<le> WORKSPACES cfg \<and> (c = None \<longrightarrow> w' = WORKSPACES cfg)"
proof (induction cfg n wn w t rule: win_to_client_loop.induct)
  case (1 cfg n wn w s)
  show ?case
  proof (cases "w < WORKSPACES cfg")
    case True
    with "1.prems" "1.IH" show ?thesis
      by (subst (asm) win_to_client_loop.simps) (auto split: sum.splits if_splits)
  next
    case False
    with "1.prems" show ?thesis
      by (subst (asm) win_to_client_loop.simps) simp
  qed
qed

lemma win_to_client_loop_state:
  "win_to_client_loop cfg n wn w t = Inr (w', c, t') \<Longrightarrow> current_workspace t < WORKSPACES cfg
    \<Longrightarrow> t' = (if w < WORKSPACES cfg then load (w' - 1) (flush t) else t)"
proof (induction cfg n wn w t rule: win_to_client_loop.induct)
  case (1 cfg n wn w s)
  show ?case
  proof (cases "w < WORKSPACES cfg")
    case True
    from "1.prems"(2) True have sel: "select_workspace cfg (int w) s = Inr (load w (flush s))"
      by (rule select_workspace_valid)
    from "1.prems"(1) True sel obtain r where
        find: "find_win n (heap (load w (flush s))) (head (load w (flush s))) wn = Inr r"
      and rest: "if r \<noteq> None then (w', c, t') = (Suc w, r, load w (flush s))
                 else win_to_client_loop cfg n wn (Suc w) (load w (flush s)) = Inr (w', c, t')"
      by (subst (asm) win_to_client_loop.simps) (auto split: sum.splits if_splits)
    show ?thesis
    proof (cases "r = None")
      case False
      with rest True show ?thesis by simp
    next
      case r: True
      with rest have loop: "win_to_client_loop cfg n wn (Suc w) (load w (flush s)) = Inr (w', c, t')"
        by simp
      have "t' = (if Suc w < WORKSPACES cfg then load (w' - 1) (flush (load w (flush s)))
                  else load w (flush s))"
        using "1.IH" [OF True sel find _ loop] r True by simp
      moreover have "w' - 1 = w" if "\<not> Suc w < WORKSPACES cfg"
      proof -
        from that True have "Suc w = WORKSPACES cfg" by simp
        with loop have "w' = Suc w"
          by (subst (asm) win_to_client_loop.simps) simp
        then show ?thesis by simp
      qed
      ultimately show ?thesis
        using True by auto
    qed
  next
    case False
    with "1.prems" show ?thesis
      by (subst (asm) win_to_client_loop.simps) simp
  qed
qed

lemma win_to_client_loop_positive:
  "win_to_client_loop cfg n wn w t = Inr (w', c, t') \<Longrightarrow> w \<le> w'"
proof (induction cfg n wn w t rule: win_to_client_loop.induct)
  case (1 cfg n wn w s)
  show ?case
  proof (cases "w < WORKSPACES cfg")
    case True
    with "1.prems" "1.IH" show ?thesis
      by (subst (asm) win_to_client_loop.simps) (fastforce split: sum.splits if_splits)
  next
    case False
    with "1.prems" show ?thesis
      by (subst (asm) win_to_client_loop.simps) simp
  qed
qed

lemma win_to_client_Inr:
  assumes "win_to_client cfg n wn s = Inr (c, s')"
  shows "current_workspace s < WORKSPACES cfg \<and> s' = flush s"
proof -
  from assms obtain w t where loop: "win_to_client_loop cfg n wn 0 s = Inr (w, c, t)"
    and fin: "(if int (current_workspace s) \<noteq> int w - 1
               then select_workspace cfg (int (current_workspace s)) t else Inr t) = Inr s'"
    by (auto simp: win_to_client_def Let_def bnd_def split: sum.splits if_splits)
  from loop have w: "w \<le> WORKSPACES cfg" "c = None \<longrightarrow> w = WORKSPACES cfg"
    using win_to_client_loop_index [OF loop] by simp_all
  have cw: "current_workspace s < WORKSPACES cfg"
  proof (rule ccontr)
    assume "\<not> current_workspace s < WORKSPACES cfg"
    then have "int (current_workspace s) \<noteq> int w - 1"
        "select_workspace cfg (int (current_workspace s)) t = Inl Bad_Index"
      using w by (auto simp: select_workspace_def Let_def)
    with fin show False by simp
  qed
  from loop cw have t: "t = load (w - 1) (flush s)"
    by (auto dest: win_to_client_loop_state)
  have "s' = load (current_workspace s) (flush s)"
  proof (cases "int (current_workspace s) = int w - 1")
    case True
    then have "current_workspace s = w - 1" by linarith
    with True fin t show ?thesis by simp
  next
    case False
    with fin have "select_workspace cfg (int (current_workspace s)) t = Inr s'"
      by simp
    moreover have "select_workspace cfg (int (current_workspace s)) t
        = Inr (load (current_workspace s) (flush t))"
      using cw t w by (intro select_workspace_valid) simp_all
    ultimately show ?thesis
      using t by simp
  qed
  with cw show ?thesis by simp
qed

lemma arrange_windows_Inr:
  assumes "arrange_windows cfg n s = Inr s'"
  shows "s' = (if head s = None then s else flush s)"
  using assms
  by (auto simp: arrange_windows_def bnd_def split: if_splits sum.splits
      dest: workspace_info_Inr)

lemma prev_client_same_list:
  assumes h: "heap t = heap s" and hd: "head t = head s"
  shows "prev_client n c t = prev_client n c s"
  unfolding prev_client_def deref_def h hd by (rule refl)

text \<open>What a call of \<^verbatim>\<open>update_focused_client\<close> that returns has done: on the empty list it
  has cleared the two focus variables; otherwise it has set them as its three branches
  say and saved the workspace.\<close>

lemma update_focused_client_Inr:
  assumes "update_focused_client cfg n c s = Inr s'"
  shows "(head s = None \<and> s' = s\<lparr>prev_foc := None, current := None\<rparr>) \<or>
         (head s \<noteq> None \<and>
          (\<exists>cur pf. s' = flush (s\<lparr>current := cur, prev_foc := pf\<rparr>) \<and>
             (if c = prev_foc s
              then cur = (if prev_foc s \<noteq> None then prev_foc s else head s) \<and>
                   prev_client n cur s = Inr pf
              else if c \<noteq> current s then pf = current s \<and> cur = c
              else pf = prev_foc s \<and> cur = current s)))"
proof (cases "head s = None")
  case True
  with assms show ?thesis
    by (simp add: update_focused_client_def)
next
  case False
  let ?res = "if c = prev_foc s
              then (let s1 = s\<lparr>current := (if prev_foc s \<noteq> None then prev_foc s else head s)\<rparr>
                    in bnd (prev_client n (current s1) s1) (\<lambda>p. Inr (s1\<lparr>prev_foc := p\<rparr>)))
              else if c \<noteq> current s then Inr (s\<lparr>prev_foc := current s, current := c\<rparr>)
              else Inr s"
  from assms False obtain s2 where s2: "?res = Inr s2"
    and arr: "arrange_windows cfg n s2 = Inr s'"
    by (auto simp: update_focused_client_def bnd_def split: sum.splits)
  have "\<exists>cur pf. s2 = s\<lparr>current := cur, prev_foc := pf\<rparr> \<and>
      (if c = prev_foc s
       then cur = (if prev_foc s \<noteq> None then prev_foc s else head s) \<and>
            prev_client n cur s = Inr pf
       else if c \<noteq> current s then pf = current s \<and> cur = c
       else pf = prev_foc s \<and> cur = current s)"
  proof (cases "c = prev_foc s")
    case True
    let ?cur = "if prev_foc s \<noteq> None then prev_foc s else head s"
    from s2 True obtain p where p: "prev_client n ?cur (s\<lparr>current := ?cur\<rparr>) = Inr p"
      and eq: "s2 = s\<lparr>current := ?cur, prev_foc := p\<rparr>"
      by (auto simp: Let_def bnd_def split: sum.splits if_splits)
    have "prev_client n ?cur (s\<lparr>current := ?cur\<rparr>) = prev_client n ?cur s"
      by (rule prev_client_same_list) simp_all
    with p eq True show ?thesis by auto
  next
    case False
    with s2 show ?thesis
      by (cases "c = current s") auto
  qed
  then obtain cur pf where eq: "s2 = s\<lparr>current := cur, prev_foc := pf\<rparr>"
    and foc: "if c = prev_foc s
       then cur = (if prev_foc s \<noteq> None then prev_foc s else head s) \<and>
            prev_client n cur s = Inr pf
       else if c \<noteq> current s then pf = current s \<and> cur = c
       else pf = prev_foc s \<and> cur = current s"
    by blast
  from arr eq False have "s' = flush (s\<lparr>current := cur, prev_foc := pf\<rparr>)"
    by (auto dest: arrange_windows_Inr)
  with False foc show ?thesis by blast
qed

section \<open>What a workspace switch that returns has done\<close>

lemma change_workspace_Inr:
  assumes run: "change_workspace cfg n i s = Inr t"
    and i: "0 \<le> i" "i < int (WORKSPACES cfg)" "i \<noteq> int (current_workspace s)"
    and cw: "current_workspace s < WORKSPACES cfg"
  shows "\<exists>s5. update_focused_client cfg n
            (current (load (nat i) (flush (s\<lparr>prev_workspace := current_workspace s\<rparr>))))
            (load (nat i) (flush (s\<lparr>prev_workspace := current_workspace s\<rparr>))) = Inr s5 \<and>
          t = flush s5"
proof -
  let ?s0 = "s\<lparr>prev_workspace := current_workspace s\<rparr>"
  let ?s1 = "load (nat i) (flush ?s0)"
  have ni: "nat i < WORKSPACES cfg" "int (nat i) = i"
    using i by simp_all
  have sel1: "select_workspace cfg i ?s0 = Inr ?s1"
    using select_workspace_valid [of ?s0 cfg "nat i"] cw ni by simp
  have sel2: "select_workspace cfg (int (prev_workspace ?s1)) ?s1 = Inr (load (current_workspace s) ?s1)"
    using select_workspace_valid [of ?s1 cfg "current_workspace s"] cw ni by simp
  have sel3: "select_workspace cfg i (load (current_workspace s) ?s1) = Inr ?s1"
    using select_workspace_valid [of "load (current_workspace s) ?s1" cfg "nat i"] cw ni by simp
  from run i sel1 sel2 sel3 obtain s4 s5 where arr: "arrange_windows cfg n ?s1 = Inr s4"
    and upd: "update_focused_client cfg n (current s4) s4 = Inr s5"
    and info: "workspace_info cfg n s5 = Inr t"
    by (auto simp: change_workspace_def Let_def bnd_def split: sum.splits if_splits)
  from arr have "s4 = ?s1"
    by (auto dest: arrange_windows_Inr split: if_splits)
  with upd info show ?thesis
    by (auto dest: workspace_info_Inr)
qed

text \<open>
  What two switches that return, to another workspace and back, have done: the first
  workspace is active again and the heap, \<^verbatim>\<open>head\<close> and \<^verbatim>\<open>layout\<close> are what they were; the
  focus variables are those that the closing \<^verbatim>\<open>update_focused_client(current)\<close> leaves.
\<close>

lemma change_workspace_back_Inr:
  assumes cw: "current_workspace s < WORKSPACES cfg"
    and j: "0 \<le> j" "j < int (WORKSPACES cfg)" "j \<noteq> int (current_workspace s)"
    and fwd: "change_workspace cfg n j s = Inr t"
    and bwd: "change_workspace cfg n (int (current_workspace s)) t = Inr u"
  shows "current_workspace u = current_workspace s \<and> heap u = heap s \<and> head u = head s \<and>
         layout u = layout s \<and>
         (if head s = None then current u = None \<and> prev_foc u = None
          else if current s = prev_foc s
               then current u = (if prev_foc s \<noteq> None then prev_foc s else head s) \<and>
                    prev_client n (current u) s = Inr (prev_foc u)
               else current u = current s \<and> prev_foc u = prev_foc s)"
proof -
  let ?i = "current_workspace s"
  let ?s1 = "load (nat j) (flush (s\<lparr>prev_workspace := ?i\<rparr>))"
  have nj: "nat j < WORKSPACES cfg" "nat j \<noteq> ?i"
    using j by auto
  from change_workspace_Inr [OF fwd j cw] obtain s5
    where upd: "update_focused_client cfg n (current ?s1) ?s1 = Inr s5" and t: "t = flush s5"
    by blast
  have s5: "heap s5 = heap s \<and> current_workspace s5 = nat j \<and> workspaces s5 ?i = snapshot s"
    using update_focused_client_Inr [OF upd] nj by (auto simp: snapshot_def)
  with t nj have t': "heap t = heap s" "current_workspace t = nat j" "workspaces t ?i = snapshot s"
    by simp_all
  define t1 where "t1 = load ?i (flush (t\<lparr>prev_workspace := current_workspace t\<rparr>))"
  have "int ?i \<noteq> int (current_workspace t)" "current_workspace t < WORKSPACES cfg"
    using t' nj j by simp_all
  with change_workspace_Inr [OF bwd _ _ this] cw obtain u5
    where upd': "update_focused_client cfg n (current t1) t1 = Inr u5" and u: "u = flush u5"
    unfolding t1_def by auto
  have t1: "heap t1 = heap s" "head t1 = head s" "layout t1 = layout s"
      "current t1 = current s" "prev_foc t1 = prev_foc s" "current_workspace t1 = ?i"
    using t' nj unfolding t1_def by simp_all
  have pc: "prev_client n c t1 = prev_client n c s" for c
    using t1(1,2) by (rule prev_client_same_list)
  have "(head s = None \<and> u5 = t1\<lparr>prev_foc := None, current := None\<rparr>) \<or>
      (head s \<noteq> None \<and>
       (\<exists>cur pf. u5 = flush (t1\<lparr>current := cur, prev_foc := pf\<rparr>) \<and>
          (if current s = prev_foc s
           then cur = (if prev_foc s \<noteq> None then prev_foc s else head s) \<and>
                prev_client n cur s = Inr pf
           else pf = prev_foc s \<and> cur = current s)))"
    using update_focused_client_Inr [OF upd'] unfolding t1 pc
    by (simp only: simp_thms if_False)
  then show ?thesis
  proof (elim disjE conjE exE)
    assume "head s = None" "u5 = t1\<lparr>prev_foc := None, current := None\<rparr>"
    then show ?thesis
      using t1 by (simp add: u)
  next
    fix cur pf
    assume "head s \<noteq> None" "u5 = flush (t1\<lparr>current := cur, prev_foc := pf\<rparr>)"
      "if current s = prev_foc s
       then cur = (if prev_foc s \<noteq> None then prev_foc s else head s) \<and>
            prev_client n cur s = Inr pf
       else pf = prev_foc s \<and> cur = current s"
    then show ?thesis
      using t1 by (auto simp: u split: if_splits)
  qed
qed

section \<open>What two focus changes that return have done\<close>

lemma prev_client_loop_mono:
  "prev_client_loop n h p c = Inr r \<Longrightarrow> prev_client_loop (n + k) h p c = Inr r"
proof (induction n arbitrary: p)
  case 0
  then show ?case by simp
next
  case (Suc n)
  then show ?case
    by (auto split: option.splits if_splits)
qed

lemma prev_client_mono:
  "prev_client n c s = Inr r \<Longrightarrow> prev_client (n + k) c s = Inr r"
  by (auto simp: prev_client_def bnd_def split: if_splits sum.splits
      intro: prev_client_loop_mono)

lemma clist_head:
  "clist h p as \<Longrightarrow> as \<noteq> [] \<Longrightarrow> p = Some (as ! 0)"
  by (cases as) auto

text \<open>
  What two calls of \<^verbatim>\<open>update_focused_client(prev_foc)\<close> that return have done on a list
  \<open>as\<close> of two or more clients. If \<^verbatim>\<open>prev_foc\<close> was a member other than the head, the
  first call has focused it and the second the client before it in the list. If
  \<^verbatim>\<open>prev_foc\<close> was the head or null, the first call has focused the head and the second
  the last client. If \<^verbatim>\<open>prev_foc\<close> pointed outside the list, the first call has focused
  that client and the second the last client of the list.
\<close>

lemma focus_twice_Inr:
  assumes l: "clist (heap s) (head s) as" and len: "2 \<le> length as"
    and c1: "update_focused_client cfg n (prev_foc s) s = Inr s1"
    and c2: "update_focused_client cfg n (prev_foc s1) s1 = Inr s2"
  shows "(Suc i < length as \<and> prev_foc s = Some (as ! Suc i)
            \<longrightarrow> current s1 = Some (as ! Suc i) \<and> current s2 = Some (as ! i)) \<and>
         (prev_foc s = None \<or> prev_foc s = Some (as ! 0)
            \<longrightarrow> current s1 = Some (as ! 0) \<and> current s2 = Some (last as)) \<and>
         (prev_foc s \<noteq> None \<and> prev_foc s \<notin> Some ` set as
            \<longrightarrow> current s1 = prev_foc s \<and> current s2 = Some (last as)) \<and>
         (length as = 2 \<and> current s \<noteq> prev_foc s \<and>
          current s \<in> Some ` set as \<and> prev_foc s \<in> Some ` set as
            \<longrightarrow> current s2 = current s)"
proof -
  let ?cur = "if prev_foc s \<noteq> None then prev_foc s else head s"
  from l len have hd: "head s = Some (as ! 0)"
    by (intro clist_head) auto
  from update_focused_client_Inr [OF c1] hd obtain pf
    where s1: "s1 = flush (s\<lparr>current := ?cur, prev_foc := pf\<rparr>)"
      and pf: "prev_client n ?cur s = Inr pf"
    by auto
  have s1f: "prev_foc s1 = pf" "head s1 = head s" "current s1 = ?cur"
    using s1 by simp_all
  have s2: "current s2 = (if pf \<noteq> None then pf else head s)"
    using update_focused_client_Inr [OF c2] hd unfolding s1f by auto
  from pf have pf': "prev_client (n + length as) ?cur s = Inr pf"
    by (rule prev_client_mono)
  have fuel: "length as \<le> n + length as"
    by simp
  have dist: "distinct as"
    using l by (rule clist_distinct)
  have first: "as ! 0 \<notin> set (tl as)"
    using dist len by (cases as) auto
  have member: "pf = Some (as ! k)" if "Suc k < length as" "prev_foc s = Some (as ! Suc k)" for k
    using prev_client_cases [OF l fuel, of ?cur k] pf' that by simp
  have wrap: "pf = Some (last as)" if "prev_foc s = None \<or> prev_foc s = Some (as ! 0)"
  proof -
    from that hd have "?cur = Some (as ! 0)" by auto
    with prev_client_cases [OF l fuel, of ?cur i] pf' len first show ?thesis
      by auto
  qed
  have outside: "pf = Some (last as)"
    if "prev_foc s \<noteq> None" "prev_foc s \<notin> Some ` set as"
  proof -
    from len have "set (tl as) \<subseteq> set as"
      by (cases as) auto
    with that have "?cur \<noteq> None" "?cur \<notin> Some ` set (tl as)"
      by auto
    with prev_client_cases [OF l fuel, of ?cur i] pf' len show ?thesis
      by simp
  qed
  have two: "current s2 = current s"
    if "length as = 2" "current s \<noteq> prev_foc s" "current s \<in> Some ` set as"
      "prev_foc s \<in> Some ` set as"
  proof -
    from that(1) obtain a b where as: "as = [a, b]"
      by (cases as; cases "tl as") auto
    with that consider "prev_foc s = Some (as ! Suc 0)" "current s = Some (as ! 0)"
      | "prev_foc s = Some (as ! 0)" "current s = Some (last as)"
      by auto
    then show ?thesis
    proof cases
      case 1
      with member [of 0] as s2 show ?thesis by simp
    next
      case 2
      with wrap s2 show ?thesis by simp
    qed
  qed
  have "current s1 = Some (as ! Suc i) \<and> current s2 = Some (as ! i)"
    if a: "Suc i < length as \<and> prev_foc s = Some (as ! Suc i)"
  proof -
    from a have "pf = Some (as ! i)"
      using member by blast
    with s1f s2 a show ?thesis
      by simp
  qed
  moreover have "current s1 = Some (as ! 0) \<and> current s2 = Some (last as)"
    if a: "prev_foc s = None \<or> prev_foc s = Some (as ! 0)"
  proof -
    from a have "pf = Some (last as)"
      by (rule wrap)
    with s1f s2 hd a show ?thesis
      by auto
  qed
  moreover have "current s1 = prev_foc s \<and> current s2 = Some (last as)"
    if a: "prev_foc s \<noteq> None \<and> prev_foc s \<notin> Some ` set as"
  proof -
    from a have "pf = Some (last as)"
      using outside by blast
    with s1f s2 a show ?thesis
      by simp
  qed
  moreover have "current s2 = current s"
    if "length as = 2 \<and> current s \<noteq> prev_foc s \<and>
      current s \<in> Some ` set as \<and> prev_foc s \<in> Some ` set as"
    using that two by blast
  ultimately show ?thesis
    by blast
qed

section \<open>Lists under heap updates\<close>

lemma clist_allocated: "clist h p as \<Longrightarrow> a \<in> set as \<Longrightarrow> h a \<noteq> None"
  by (induction as arbitrary: p) (auto split: option.splits)

lemma clist_upd_notin: "a \<notin> set as \<Longrightarrow> clist (h(a := v)) p as = clist h p as"
  by (induction as arbitrary: p) (auto split: option.splits)

lemma clist_upd_same_nxt:
  "clist h p as \<Longrightarrow> h a = Some c \<Longrightarrow> nxt c' = nxt c \<Longrightarrow> clist (h(a \<mapsto> c')) p as"
  by (induction as arbitrary: p) (auto split: option.splits)

lemma clist_append_aux:
  assumes "clist h p (bs @ [b])" and "a \<notin> set (bs @ [b])" and "h a = Some z" and "nxt z = None"
    and "h b = Some l" and "h' = h(b \<mapsto> l\<lparr>nxt := Some a\<rparr>)"
  shows "clist h' p (bs @ [b, a])"
  using assms
proof (induction bs arbitrary: p)
  case Nil
  then have "p = Some b" "a \<noteq> b"
    by auto
  then show ?case
    unfolding Nil.prems(6) using Nil.prems(3,4) by (simp del: fun_upd_apply add: fun_upd_same fun_upd_other)
next
  case (Cons x xs)
  from Cons.prems(1) obtain c where c: "p = Some x" "h x = Some c" "clist h (nxt c) (xs @ [b])"
    by (auto split: option.splits)
  have "x \<notin> set (xs @ [b])"
    using Cons.prems(1) c(1) clist_head_notin_tail by fastforce
  then have "h' x = Some c"
    unfolding Cons.prems(6) using c(2) by simp
  moreover have "clist h' (nxt c) (xs @ [b, a])"
    using Cons.IH [OF c(3)] Cons.prems by simp
  ultimately show ?case
    using c by simp
qed

lemma clist_append:
  assumes "clist h p (bs @ [b])" and "a \<notin> set (bs @ [b])" and "h a = Some z" and "nxt z = None"
    and "h b = Some l"
  shows "clist (h(b \<mapsto> l\<lparr>nxt := Some a\<rparr>)) p (bs @ [b, a])"
  using assms refl by (rule clist_append_aux)

lemma clist_unlink_aux:
  assumes "clist h p (xs @ b # a # ys)" and "h b = Some l" and "h a = Some ca"
    and "h' = h(b \<mapsto> l\<lparr>nxt := nxt ca\<rparr>)"
  shows "clist h' p (xs @ b # ys)"
  using assms
proof (induction xs arbitrary: p)
  case Nil
  then have rest: "clist h (nxt ca) ys" and p: "p = Some b"
    by (auto split: option.splits)
  have "distinct (b # a # ys)"
    using Nil.prems(1) clist_distinct by fastforce
  then have "clist h' (nxt ca) ys"
    unfolding Nil.prems(4) using rest by (simp add: clist_upd_notin)
  then show ?case
    unfolding Nil.prems(4) using p by (simp del: fun_upd_apply add: fun_upd_same fun_upd_other)
next
  case (Cons x xs)
  from Cons.prems(1) obtain c where c: "p = Some x" "h x = Some c"
      "clist h (nxt c) (xs @ b # a # ys)"
    by (auto split: option.splits)
  have "x \<notin> set (xs @ b # a # ys)"
    using Cons.prems(1) c(1) clist_head_notin_tail by fastforce
  then have "h' x = Some c"
    unfolding Cons.prems(4) using c(2) by simp
  moreover have "clist h' (nxt c) (xs @ b # ys)"
    using Cons.IH [OF c(3)] Cons.prems by simp
  ultimately show ?case
    using c by simp
qed

lemma clist_unlink:
  assumes "clist h p (xs @ b # a # ys)" and "h b = Some l" and "h a = Some ca"
  shows "clist (h(b \<mapsto> l\<lparr>nxt := nxt ca\<rparr>)) p (xs @ b # ys)"
  using assms refl by (rule clist_unlink_aux)

lemma bnd_Inr_iff: "bnd m f = Inr r \<longleftrightarrow> (\<exists>v. m = Inr v \<and> f v = Inr r)"
  by (cases m) (simp_all add: bnd_def)

lemma deref_Inr: "deref s p = Inr c \<longleftrightarrow> (\<exists>a. p = Some a \<and> heap s a = Some c)"
  by (auto simp: deref_def split: option.splits)

lemma upd_client_Inr:
  "upd_client p f s = Inr s' \<Longrightarrow>
    \<exists>a c. p = Some a \<and> heap s a = Some c \<and> s' = s\<lparr>heap := (heap s)(a \<mapsto> f c)\<rparr>"
  by (auto simp: upd_client_def split: option.splits)

section \<open>Appending a client\<close>

lemma prev_client_of_head:
  assumes l: "clist (heap s) (head s) as" and r: "prev_client n (head s) s = Inr t"
  shows "t = (if length as \<le> 1 then None else Some (last as))"
proof (cases "length as \<le> 1")
  case True
  then consider "as = []" | "length as = 1"
    by (cases as) auto
  then show ?thesis
  proof cases
    case 1
    with l r True show ?thesis
      by (simp add: prev_client_def)
  next
    case 2
    from r have "prev_client (n + length as) (head s) s = Inr t"
      by (rule prev_client_mono)
    with prev_client_cases [OF l, of "n + length as" "head s" 0] 2 True show ?thesis
      by simp
  qed
next
  case False
  then have hd: "head s = Some (as ! 0)"
    using l by (intro clist_head) auto
  have "as ! 0 \<notin> set (tl as)"
    using clist_distinct [OF l] False by (cases as) auto
  moreover from r have "prev_client (n + length as) (head s) s = Inr t"
    by (rule prev_client_mono)
  ultimately show ?thesis
    using prev_client_cases [OF l, of "n + length as" "head s" 0] False hd by auto
qed

lemma bndE:
  assumes "bnd m f = Inr r"
  obtains v where "m = Inr v" and "f v = Inr r"
  using assms by (auto simp: bnd_Inr_iff)

lemma client_from_window_Inr:
  assumes run: "client_from_window cfg n a wn s = Inr (c, s')"
    and l: "clist (heap s) (head s) as"
  shows "\<exists>ca. a = Some ca \<and> c = Some ca \<and> heap s ca = None \<and>
           s' = s\<lparr>heap := heap s', head := head s'\<rparr> \<and>
           clist (heap s') (head s') (as @ [ca])"
proof -
  have "\<exists>ca. a = Some ca \<and> heap s ca = None"
  proof (cases a)
    case None
    with run show ?thesis
      by (simp add: client_from_window_def bnd_Inr_iff)
  next
    case (Some ca)
    with run show ?thesis
      by (cases "heap s ca") (simp_all add: client_from_window_def)
  qed
  then obtain ca where a: "a = Some ca" and fresh: "heap s ca = None"
    by blast
  let ?h1 = "(heap s)(ca \<mapsto> zero_client)"
  let ?s1 = "s\<lparr>heap := ?h1\<rparr>"
  have nin: "ca \<notin> set as"
    using fresh by (auto dest: clist_allocated [OF l])
  then have l1: "clist ?h1 (head s) as"
    using l by (simp add: clist_upd_notin)
  from run a fresh have "bnd (prev_client n (head ?s1) ?s1) (\<lambda>t.
      bnd (if head ?s1 = None then Inr (?s1\<lparr>head := a\<rparr>)
           else if t \<noteq> None then upd_client t (\<lambda>c. c\<lparr>nxt := a\<rparr>) ?s1
           else upd_client (head ?s1) (\<lambda>c. c\<lparr>nxt := a\<rparr>) ?s1) (\<lambda>s2.
        bnd (upd_client a (\<lambda>c. c\<lparr>win := wn\<rparr>) s2) (\<lambda>s3. Inr (a, s3)))) = Inr (c, s')"
    unfolding client_from_window_def Let_def by simp
  then obtain t s2 s3 where t: "prev_client n (head ?s1) ?s1 = Inr t"
    and link: "(if head ?s1 = None then Inr (?s1\<lparr>head := a\<rparr>)
                else if t \<noteq> None then upd_client t (\<lambda>c. c\<lparr>nxt := a\<rparr>) ?s1
                else upd_client (head ?s1) (\<lambda>c. c\<lparr>nxt := a\<rparr>) ?s1) = Inr s2"
    and win3: "upd_client a (\<lambda>c. c\<lparr>win := wn\<rparr>) s2 = Inr s3" and res: "(a, s3) = (c, s')"
    by (elim bndE) simp
  from res win3 have win: "upd_client a (\<lambda>c. c\<lparr>win := wn\<rparr>) s2 = Inr s'" and c: "c = a"
    by simp_all
  have t': "t = (if length as \<le> 1 then None else Some (last as))"
    using prev_client_of_head [of ?s1 as n t] l1 t by simp
  have "s2 = s\<lparr>heap := heap s2, head := head s2\<rparr> \<and> clist (heap s2) (head s2) (as @ [ca]) \<and>
      heap s2 ca \<noteq> None"
  proof (cases as)
    case Nil
    with l link a have "s2 = s\<lparr>heap := ?h1, head := Some ca\<rparr>"
      by auto
    moreover have "clist ?h1 (Some ca) ([] @ [ca])"
      by (simp add: zero_client_def)
    ultimately show ?thesis
      using Nil by auto
  next
    case (Cons x xs)
    with l have hd: "head s \<noteq> None"
      by simp
    from Cons obtain bs b where as: "as = bs @ [b]"
      by (metis list.distinct(1) rev_exhaust)
    have tgt: "(if t \<noteq> None then t else head s) = Some b"
    proof (cases bs)
      case Nil
      with t' as l show ?thesis by simp
    next
      case (Cons y ys)
      with t' as show ?thesis by simp
    qed
    from link hd have "upd_client (if t \<noteq> None then t else head s) (\<lambda>c. c\<lparr>nxt := a\<rparr>) ?s1 = Inr s2"
      by (auto split: if_splits)
    with tgt obtain lc where lc: "?h1 b = Some lc"
      and s2: "s2 = ?s1\<lparr>heap := ?h1(b \<mapsto> lc\<lparr>nxt := a\<rparr>)\<rparr>"
      by (auto dest!: upd_client_Inr)
    have z: "?h1 ca = Some zero_client" "nxt zero_client = None"
      by (simp_all add: zero_client_def)
    have "clist (?h1(b \<mapsto> lc\<lparr>nxt := Some ca\<rparr>)) (head s) (bs @ [b, ca])"
      using l1 nin z lc unfolding as by (rule clist_append)
    moreover have "b \<noteq> ca"
      using nin as by auto
    ultimately show ?thesis
      using s2 a as by auto
  qed
  then have s2: "s2 = s\<lparr>heap := heap s2, head := head s2\<rparr>"
    and l2: "clist (heap s2) (head s2) (as @ [ca])" and al: "heap s2 ca \<noteq> None"
    by simp_all
  from win a al obtain cc where cc: "heap s2 ca = Some cc"
    and s': "s' = s2\<lparr>heap := (heap s2)(ca \<mapsto> cc\<lparr>win := wn\<rparr>)\<rparr>"
    by (auto dest!: upd_client_Inr)
  have "clist ((heap s2)(ca \<mapsto> cc\<lparr>win := wn\<rparr>)) (head s2) (as @ [ca])"
    using l2 cc by (rule clist_upd_same_nxt) simp
  moreover have "s' = s\<lparr>heap := heap s', head := head s'\<rparr>"
    by (subst s', subst s2) (simp add: s')
  ultimately show ?thesis
    using a c fresh s' by simp
qed

section \<open>Removing a client\<close>

lemma remove_find_zero:
  "read_loc s l = Inr v \<Longrightarrow> remove_find 0 s c l = Inl Out_Of_Fuel"
  by (cases l) (simp_all add: read_loc_def)

lemma remove_find_step:
  "read_loc s l = Inr v \<Longrightarrow> remove_find (Suc m) s c l =
     (if v = c then Inr (l, True)
      else remove_find m s c (case v of None \<Rightarrow> Null_Loc | Some a \<Rightarrow> Next_Loc a))"
  by (cases l) (simp_all add: read_loc_def bnd_def)

lemma remove_find_not_found:
  "remove_find n s c l = Inr (temp, False) \<Longrightarrow> temp = Null_Loc"
proof (induction n arbitrary: l)
  case 0
  then show ?case by (cases l) simp_all
next
  case (Suc n)
  show ?case
  proof (cases "l = Null_Loc")
    case True
    with Suc.prems show ?thesis by simp
  next
    case False
    with Suc.prems obtain v where rd: "read_loc s l = Inr v"
      by (cases l) (auto elim!: bndE)
    from Suc.prems have "(if v = c then Inr (l, True)
        else remove_find n s c (case v of None \<Rightarrow> Null_Loc | Some a \<Rightarrow> Next_Loc a))
       = Inr (temp, False)"
      unfolding remove_find_step [OF rd] .
    then show ?thesis
      using Suc.IH by (auto split: if_splits)
  qed
qed

lemma remove_find_found:
  assumes "clist (heap s) v as" and "read_loc s l = Inr v"
    and "remove_find n s c l = Inr (temp, True)"
  shows "c = None \<or>
         (\<exists>xs a ys. as = xs @ a # ys \<and> c = Some a \<and>
            temp = (if xs = [] then l else Next_Loc (last xs)))"
  using assms
proof (induction as arbitrary: l v n)
  case Nil
  then have v: "v = None" by simp
  from Nil.prems(2,3) obtain m where n: "n = Suc m"
    by (cases n) (simp_all add: remove_find_zero)
  from Nil.prems(3) have "(if None = c then Inr (l, True)
      else remove_find m s c Null_Loc) = Inr (temp, True)"
    unfolding n remove_find_step [OF Nil.prems(2)] v by (auto split: if_splits)
  then show ?case
    by (auto split: if_splits)
next
  case (Cons a as)
  from Cons.prems(1) obtain ca where v: "v = Some a" and ca: "heap s a = Some ca"
    and rest: "clist (heap s) (nxt ca) as"
    by (auto split: option.splits)
  from Cons.prems(2,3) obtain m where n: "n = Suc m"
    by (cases n) (simp_all add: remove_find_zero)
  from Cons.prems(3) have step: "(if Some a = c then Inr (l, True)
      else remove_find m s c (Next_Loc a)) = Inr (temp, True)"
    unfolding n remove_find_step [OF Cons.prems(2)] v by (auto split: if_splits)
  show ?case
  proof (cases "Some a = c")
    case True
    with step have "temp = l" by simp
    with True have "a # as = [] @ a # as \<and> c = Some a \<and> temp = (if [] = [] then l else Next_Loc (last []))"
      by simp
    then show ?thesis by blast
  next
    case False
    with step have next_step: "remove_find m s c (Next_Loc a) = Inr (temp, True)"
      by simp
    have rd: "read_loc s (Next_Loc a) = Inr (nxt ca)"
      using ca by (simp add: read_loc_def deref_def bnd_def)
    from Cons.IH [OF rest rd next_step] show ?thesis
    proof (elim disjE exE conjE)
      assume "c = None"
      then show ?thesis by simp
    next
      fix xs b ys
      assume "as = xs @ b # ys" "c = Some b"
        "temp = (if xs = [] then Next_Loc a else Next_Loc (last xs))"
      then have "a # as = (a # xs) @ b # ys \<and> c = Some b \<and>
          temp = (if a # xs = [] then l else Next_Loc (last (a # xs)))"
        by simp
      then show ?thesis by blast
    qed
  qed
qed

lemma remove_client_loop_Inr:
  "remove_client_loop cfg n c cw w temp s = Inr (w', temp', s') \<Longrightarrow>
    cw = int (current_workspace s) \<Longrightarrow> current_workspace s < WORKSPACES cfg \<Longrightarrow>
    s' = (if w < WORKSPACES cfg then flush s else s) \<and>
    (temp' = temp \<or> temp' = Null_Loc \<or> remove_find n (flush s) c Head_Loc = Inr (temp', True))"
proof (induction cfg n c cw w temp s rule: remove_client_loop.induct)
  case (1 cfg n c cw w temp s)
  show ?case
  proof (cases "w < WORKSPACES cfg")
    case False
    with "1.prems" show ?thesis
      by (subst (asm) remove_client_loop.simps) simp
  next
    case True
    have sel: "select_workspace cfg cw s = Inr (flush s)"
      using select_workspace_valid [of s cfg "current_workspace s"] "1.prems"(2,3) by simp
    from "1.prems"(1) True sel obtain temp1 found
      where find: "remove_find n (flush s) c Head_Loc = Inr (temp1, found)"
        and rest: "if found then (w', temp', s') = (Suc w, temp1, flush s)
                   else remove_client_loop cfg n c cw (Suc w) temp1 (flush s) = Inr (w', temp', s')"
      by (subst (asm) remove_client_loop.simps) (auto split: sum.splits if_splits)
    show ?thesis
    proof (cases found)
      case True
      with rest find \<open>w < WORKSPACES cfg\<close> show ?thesis by simp
    next
      case False
      with find have t1: "temp1 = Null_Loc"
        by (auto dest: remove_find_not_found)
      from False rest have loop: "remove_client_loop cfg n c cw (Suc w) temp1 (flush s) = Inr (w', temp', s')"
        by simp
      have "s' = (if Suc w < WORKSPACES cfg then flush (flush s) else flush s) \<and>
          (temp' = temp1 \<or> temp' = Null_Loc \<or>
           remove_find n (flush (flush s)) c Head_Loc = Inr (temp', True))"
        using "1.IH" [OF True sel find refl _ loop] False "1.prems"(2,3) by simp
      with t1 True show ?thesis by auto
    qed
  qed
qed

lemma remove_client_loop_bad_workspace:
  "remove_client_loop cfg n c (int cw) w temp s = Inr (w', temp', s') \<Longrightarrow>
    \<not> cw < WORKSPACES cfg \<Longrightarrow> temp' = temp"
  by (subst (asm) remove_client_loop.simps)
    (auto simp: select_workspace_def Let_def split: if_splits)

lemma update_focused_client_frame:
  assumes "update_focused_client cfg n c s = Inr s'"
  shows "heap s' = heap s" and "head s' = head s"
    and "current_workspace s' = current_workspace s"
    and "w \<noteq> current_workspace s \<Longrightarrow> workspaces s' w = workspaces s w"
  using update_focused_client_Inr [OF assms] by auto

text \<open>What a call of \<^verbatim>\<open>remove_client\<close> that returns has done to the list of the active
  workspace: the client was a member, and it has been unlinked and freed.\<close>

lemma remove_client_Inr:
  assumes run: "remove_client cfg n c s = Inr s'"
    and l: "clist (heap s) (head s) as"
  shows "\<exists>xs a ys. as = xs @ a # ys \<and> c = Some a \<and> clist (heap s') (head s') (xs @ ys) \<and>
           heap s' = (heap s')(a := None) \<and>
           current_workspace s' = current_workspace s \<and> flush s' = s' \<and>
           (\<forall>w. w \<noteq> current_workspace s \<longrightarrow> workspaces s' w = workspaces s w)"
proof -
  from run obtain r where loop: "remove_client_loop cfg n c (int (current_workspace s)) 0 Null_Loc s = Inr r"
    and body: "(case r of (w, temp, s1) \<Rightarrow>
        bnd (deref s1 c) (\<lambda>cc.
          bnd (write_loc temp (nxt cc) s1) (\<lambda>s2.
            bnd (if c = prev_foc s2
                 then bnd (prev_client n c s2) (\<lambda>p. Inr (s2\<lparr>prev_foc := p\<rparr>))
                 else Inr s2) (\<lambda>s3.
              bnd (if c = current (if c = head s3 then s3\<lparr>head := None\<rparr> else s3)
                   then update_focused_client cfg n
                          (prev_foc (if c = head s3 then s3\<lparr>head := None\<rparr> else s3))
                          (if c = head s3 then s3\<lparr>head := None\<rparr> else s3)
                   else bnd (deref (if c = head s3 then s3\<lparr>head := None\<rparr> else s3)
                               (head (if c = head s3 then s3\<lparr>head := None\<rparr> else s3)))
                     (\<lambda>hc. if nxt hc = None
                       then update_focused_client cfg n
                              (prev_foc (if c = head s3 then s3\<lparr>head := None\<rparr> else s3))
                              (if c = head s3 then s3\<lparr>head := None\<rparr> else s3)
                       else Inr (if c = head s3 then s3\<lparr>head := None\<rparr> else s3))) (\<lambda>s5.
                bnd (if int (current_workspace s) = int w - 1
                     then arrange_windows cfg n (s5\<lparr>heap := (heap s5)(the c := None)\<rparr>)
                     else select_workspace cfg (int (current_workspace s))
                            (s5\<lparr>heap := (heap s5)(the c := None)\<rparr>)) (\<lambda>s7.
                  workspace_info cfg n s7)))))) = Inr s'"
    unfolding remove_client_def Let_def by (rule bndE)
  obtain w temp s1 where r: "r = (w, temp, s1)"
    by (cases r)
  from body show ?thesis
    unfolding r prod.case
  proof (elim bndE, goal_cases)
    case (1 cc s2 s3 s5 s7)
    note cc = "1"(1) and wr = "1"(2) and pf = "1"(3) and uf = "1"(4) and fin = "1"(5)
      and info = "1"(6)
    let ?cw = "current_workspace s"
    from wr have tn: "temp \<noteq> Null_Loc"
      by (auto simp: write_loc_def)
    have cw: "?cw < WORKSPACES cfg"
      using remove_client_loop_bad_workspace [OF loop [unfolded r]] tn by blast
    from remove_client_loop_Inr [OF loop [unfolded r] refl cw] cw tn
    have s1: "s1 = flush s" and found: "remove_find n (flush s) c Head_Loc = Inr (temp, True)"
      by auto
    from cc have "c \<noteq> None"
      by (auto simp: deref_Inr)
    with remove_find_found [of "flush s" "head s" as Head_Loc n c temp] l found
    obtain xs a ys where as: "as = xs @ a # ys" and c: "c = Some a"
      and temp: "temp = (if xs = [] then Head_Loc else Next_Loc (last xs))"
      by (auto simp: read_loc_def)
    have dist: "distinct (xs @ a # ys)"
      using clist_distinct [OF l] as by simp
    from l have "clist (heap s) (Some a) (a # ys)"
      unfolding as by (rule clist_suffix)
    with cc c s1 have a: "heap s a = Some cc" and tl: "clist (heap s) (nxt cc) ys"
      by (auto simp: deref_Inr)
    have s2: "clist (heap s2) (head s2) (xs @ ys) \<and> heap s2 a = Some cc \<and>
        current_workspace s2 = ?cw \<and> workspaces s2 = workspaces (flush s)"
    proof (cases xs rule: rev_cases)
      case Nil
      with wr temp s1 have "s2 = flush s\<lparr>head := nxt cc\<rparr>"
        by (simp add: write_loc_def)
      with Nil tl a show ?thesis
        by simp
    next
      case (snoc xs' b)
      with wr temp s1 obtain lb where lb: "heap s b = Some lb"
        and eq: "s2 = flush s\<lparr>heap := (heap s)(b \<mapsto> lb\<lparr>nxt := nxt cc\<rparr>)\<rparr>"
        by (auto simp: write_loc_def dest!: upd_client_Inr)
      have "clist ((heap s)(b \<mapsto> lb\<lparr>nxt := nxt cc\<rparr>)) (head s) (xs' @ b # ys)"
        using l lb a unfolding as snoc by (intro clist_unlink) simp_all
      moreover have "b \<noteq> a"
        using dist snoc by simp
      ultimately show ?thesis
        using eq snoc a by simp
    qed
    have s3: "heap s3 = heap s2 \<and> head s3 = head s2 \<and> current_workspace s3 = ?cw \<and>
        workspaces s3 = workspaces (flush s)"
      using pf s2 by (auto split: if_splits elim!: bndE)
    have nin: "a \<notin> set (xs @ ys)"
      using dist by simp
    have "head s3 \<noteq> Some a"
    proof
      assume "head s3 = Some a"
      with s2 s3 have "clist (heap s2) (Some a) (xs @ ys)"
        by simp
      then have "a \<in> set (xs @ ys)"
        by (cases "xs @ ys") auto
      with nin show False ..
    qed
    with c have s4: "(if c = head s3 then s3\<lparr>head := None\<rparr> else s3) = s3"
      by simp
    have s5: "heap s5 = heap s2 \<and> head s5 = head s2 \<and> current_workspace s5 = ?cw \<and>
        (\<forall>w. w \<noteq> ?cw \<longrightarrow> workspaces s5 w = workspaces s w)"
    proof -
      note uf' = uf [unfolded s4]
      have "update_focused_client cfg n (prev_foc s3) s3 = Inr s5 \<or> s5 = s3"
      proof (cases "c = current s3")
        case True
        with uf' show ?thesis
          by simp
      next
        case False
        with uf' have "bnd (deref s3 (head s3)) (\<lambda>hc. if nxt hc = None
            then update_focused_client cfg n (prev_foc s3) s3 else Inr s3) = Inr s5"
          by simp
        then obtain hc where "deref s3 (head s3) = Inr hc" and "(if nxt hc = None
            then update_focused_client cfg n (prev_foc s3) s3 else Inr s3) = Inr s5"
          by (rule bndE)
        then show ?thesis
          by (cases "nxt hc = None") auto
      qed
      then consider (upd) "update_focused_client cfg n (prev_foc s3) s3 = Inr s5" | (same) "s5 = s3"
        by blast
      then show ?thesis
      proof cases
        case upd
        from update_focused_client_frame [OF upd] s3 show ?thesis
          by simp
      next
        case same
        with s3 show ?thesis
          by simp
      qed
    qed
    let ?s6 = "s5\<lparr>heap := (heap s5)(a := None)\<rparr>"
    have s7: "s7 = ?s6 \<or> s7 = flush ?s6"
    proof (cases "int ?cw = int w - 1")
      case True
      with fin c have "arrange_windows cfg n ?s6 = Inr s7"
        by simp
      then show ?thesis
        by (auto dest: arrange_windows_Inr split: if_splits)
    next
      case False
      with fin c have "select_workspace cfg (int ?cw) ?s6 = Inr s7"
        by simp
      moreover have "select_workspace cfg (int ?cw) ?s6 = Inr (load ?cw (flush ?s6))"
        using cw s5 by (intro select_workspace_valid) simp_all
      moreover have "load ?cw (flush ?s6) = flush ?s6"
        using load_flush_current [of ?s6] s5 by simp
      ultimately show ?thesis
        by simp
    qed
    from info have s': "s' = flush s7"
      by (auto dest: workspace_info_Inr)
    have l6: "clist (heap ?s6) (head ?s6) (xs @ ys)"
      using s2 s5 nin by (simp add: clist_upd_notin)
    from s7 s' have fields: "heap s' = heap ?s6" "head s' = head ?s6"
        "current_workspace s' = current_workspace ?s6"
        "\<forall>w. w \<noteq> current_workspace ?s6 \<longrightarrow> workspaces s' w = workspaces ?s6 w"
      by auto
    have "flush s' = s'"
      unfolding s' by simp
    with l6 fields s5 as c show ?thesis
      by (intro exI [of _ xs] exI [of _ a] exI [of _ ys]) simp
  qed
qed

section \<open>Client lists stay null-terminated\<close>

lemma at_rest_init: "at_rest (init_state sw sh)"
  unfolding at_rest_def
proof (intro conjI)
  show "current_workspace (init_state sw sh) = 0"
    by (simp add: init_state_def)
  show "flush (init_state sw sh) = init_state sw sh"
    by (simp add: init_state_def flush_def snapshot_def fun_upd_idem)
  show "\<forall>w. w \<noteq> 0 \<longrightarrow> ws_head (workspaces (init_state sw sh) w) = None"
    by (simp add: init_state_def)
  have "clist (heap (init_state sw sh)) (head (init_state sw sh)) []"
    by (simp add: init_state_def)
  then show "\<exists>as. clist (heap (init_state sw sh)) (head (init_state sw sh)) as"
    by blast
qed

lemma map_request_event_at_rest:
  assumes inv: "at_rest s" and run: "map_request_event cfg n wn wa transient a s = Inr s'"
  shows "at_rest s'"
proof (cases "wa = None \<or> wa = Some True")
  case True
  with run inv show ?thesis
    by (simp add: map_request_event_def)
next
  case False
  from inv obtain as where cw: "current_workspace s = 0" and fl: "flush s = s"
    and slots: "\<forall>w. w \<noteq> 0 \<longrightarrow> ws_head (workspaces s w) = None"
    and l: "clist (heap s) (head s) as"
    unfolding at_rest_def by blast
  from run False obtain r where find: "win_to_client cfg n wn s = Inr r"
    and body: "(case r of (t, s1) \<Rightarrow>
        if t \<noteq> None then Inr s1
        else bnd (client_from_window cfg n a wn s1) (\<lambda>(c, s2).
          bnd (upd_client c (\<lambda>cl. cl\<lparr>is_floating := (transient \<noteq> 0),
                 is_transient := (transient \<noteq> 0)\<rparr>) s2) (\<lambda>s3.
            bnd (arrange_windows cfg n s3) (\<lambda>s4.
              update_focused_client cfg n c s4)))) = Inr s'"
    unfolding map_request_event_def by (auto elim: bndE)
  obtain t s1 where r: "r = (t, s1)"
    by (cases r)
  from find r fl have s1: "s1 = s"
    by (auto dest: win_to_client_Inr)
  show ?thesis
  proof (cases "t = None")
    case False
    with body r s1 inv show ?thesis
      by simp
  next
    case True
    with body r s1 obtain r2 where new: "client_from_window cfg n a wn s = Inr r2"
      and body2: "(case r2 of (c, s2) \<Rightarrow>
          bnd (upd_client c (\<lambda>cl. cl\<lparr>is_floating := (transient \<noteq> 0),
                 is_transient := (transient \<noteq> 0)\<rparr>) s2) (\<lambda>s3.
            bnd (arrange_windows cfg n s3) (\<lambda>s4.
              update_focused_client cfg n c s4))) = Inr s'"
      by (auto elim: bndE)
    obtain c s2 where r2: "r2 = (c, s2)"
      by (cases r2)
    from body2 obtain s3 s4 where flags: "upd_client c (\<lambda>cl. cl\<lparr>is_floating := (transient \<noteq> 0),
          is_transient := (transient \<noteq> 0)\<rparr>) s2 = Inr s3"
      and arr: "arrange_windows cfg n s3 = Inr s4"
      and upd: "update_focused_client cfg n c s4 = Inr s'"
      unfolding r2 prod.case by (elim bndE)
    from client_from_window_Inr [OF new [unfolded r2] l] obtain ca
      where c: "c = Some ca" and s2: "s2 = s\<lparr>heap := heap s2, head := head s2\<rparr>"
        and l2: "clist (heap s2) (head s2) (as @ [ca])"
      by blast
    from flags c obtain cc where cc: "heap s2 ca = Some cc"
      and s3: "s3 = s2\<lparr>heap := (heap s2)(ca \<mapsto> cc\<lparr>is_floating := (transient \<noteq> 0),
          is_transient := (transient \<noteq> 0)\<rparr>)\<rparr>"
      by (auto dest!: upd_client_Inr)
    have l3: "clist (heap s3) (head s3) (as @ [ca])"
      unfolding s3 using l2 cc by (simp add: clist_upd_same_nxt)
    then have hd3: "head s3 \<noteq> None"
      by (cases as) auto
    have ws3: "workspaces s3 = workspaces s" "current_workspace s3 = 0"
      by (subst s3, subst s2, simp add: cw)+
    from arr hd3 have s4: "s4 = flush s3"
      by (auto dest: arrange_windows_Inr)
    from update_focused_client_Inr [OF upd] hd3 s4 have fl': "flush s' = s'"
      by auto
    from update_focused_client_frame [OF upd] s4 ws3
    have "heap s' = heap s3" "head s' = head s3" "current_workspace s' = 0"
      "\<forall>w. w \<noteq> 0 \<longrightarrow> workspaces s' w = workspaces s w"
      by simp_all
    with fl' l3 slots show ?thesis
      unfolding at_rest_def by auto
  qed
qed

lemma destroy_event_at_rest:
  assumes inv: "at_rest s" and run: "destroy_event cfg n wn s = Inr s'"
  shows "at_rest s'"
proof -
  from inv obtain as where cw: "current_workspace s = 0" and fl: "flush s = s"
    and slots: "\<forall>w. w \<noteq> 0 \<longrightarrow> ws_head (workspaces s w) = None"
    and l: "clist (heap s) (head s) as"
    unfolding at_rest_def by blast
  from run obtain r where find: "win_to_client cfg n wn s = Inr r"
    and body: "(case r of (c, s1) \<Rightarrow>
        if c \<noteq> None then remove_client cfg n c s1 else Inr s1) = Inr s'"
    unfolding destroy_event_def by (rule bndE)
  obtain c s1 where r: "r = (c, s1)"
    by (cases r)
  from find r fl have s1: "s1 = s"
    by (auto dest: win_to_client_Inr)
  show ?thesis
  proof (cases "c = None")
    case True
    with body r s1 inv show ?thesis
      by simp
  next
    case False
    with body r s1 have "remove_client cfg n c s = Inr s'"
      by simp
    from remove_client_Inr [OF this l] cw slots fl show ?thesis
      unfolding at_rest_def by auto
  qed
qed

lemma run_at_rest:
  "at_rest s \<Longrightarrow> list_all create_destroy evs \<Longrightarrow> run cfg n evs s = Inr s' \<Longrightarrow> at_rest s'"
proof (induction evs arbitrary: s)
  case Nil
  then show ?case by simp
next
  case (Cons e evs)
  from Cons.prems(3) obtain t where step: "handle cfg n e s = Inr t"
    and rest: "run cfg n evs t = Inr s'"
    by (auto elim: bndE)
  from Cons.prems(2) have e: "create_destroy e" and evs: "list_all create_destroy evs"
    by simp_all
  from e step Cons.prems(1) have "at_rest t"
    by (cases e) (auto intro: map_request_event_at_rest destroy_event_at_rest)
  from Cons.IH [OF this evs rest] show ?case .
qed

section \<open>Loops over a null-terminated list come to an end\<close>

lemma clients_from_total:
  "clist h p as \<Longrightarrow> length as \<le> n \<Longrightarrow> clients_from n h p = Inr as"
proof (induction as arbitrary: p n)
  case Nil
  then show ?case by simp
next
  case (Cons a as)
  from Cons.prems(2) obtain m where "n = Suc m" "length as \<le> m"
    by (cases n) auto
  with Cons show ?case
    by (auto simp: bnd_def split: option.splits)
qed

lemma find_win_total:
  "clist h p as \<Longrightarrow> length as \<le> n
    \<Longrightarrow> \<exists>r. find_win n h p wn = Inr r \<and> (r = None \<or> r \<in> Some ` set as)"
proof (induction as arbitrary: p n)
  case Nil
  then show ?case by simp
next
  case (Cons a as)
  from Cons.prems(2) obtain m where n: "n = Suc m" "length as \<le> m"
    by (cases n) auto
  from Cons.prems(1) obtain c where c: "p = Some a" "h a = Some c" "clist h (nxt c) as"
    by (auto split: option.splits)
  show ?case
  proof (cases "wn = win c")
    case True
    with n c show ?thesis by simp
  next
    case False
    with Cons.IH [OF c(3) n(2)] n c show ?thesis by auto
  qed
qed

lemma zoom_loop_total:
  "clist (heap s) p as \<Longrightarrow> length as \<le> n \<Longrightarrow> \<exists>gs. zoom_loop cfg n s p = Inr gs"
proof (induction as arbitrary: p n)
  case Nil
  then show ?case by simp
next
  case (Cons a as)
  from Cons.prems(2) obtain m where n: "n = Suc m" "length as \<le> m"
    by (cases n) auto
  from Cons.prems(1) obtain c where c: "p = Some a" "heap s a = Some c" "clist (heap s) (nxt c) as"
    by (auto split: option.splits)
  from Cons.IH [OF c(3) n(2)] obtain gs where "zoom_loop cfg m s (nxt c) = Inr gs"
    by blast
  with n c show ?case
    by (simp add: bnd_def)
qed

lemma count_loop_total:
  "clist h p as \<Longrightarrow> length as \<le> n \<Longrightarrow> \<exists>r. count_loop n h p acc = Inr r"
proof (induction as arbitrary: p n acc)
  case Nil
  then show ?case by (cases acc) simp
next
  case (Cons a as)
  from Cons.prems(2) obtain m where n: "n = Suc m" "length as \<le> m"
    by (cases n) auto
  from Cons.prems(1) obtain c where c: "p = Some a" "h a = Some c" "clist h (nxt c) as"
    by (auto split: option.splits)
  obtain al fs ft where acc: "acc = (al, fs, ft)"
    by (cases acc)
  from Cons.IH [OF c(3) n(2)] n c show ?case
    unfolding acc by simp
qed

lemma band_loop_total:
  "clist (heap s) p as \<Longrightarrow> length as \<le> n \<Longrightarrow> \<exists>r. band_loop n s p acc = Inr r"
proof (induction as arbitrary: p n acc)
  case Nil
  obtain al fs ft where "acc = (al, fs, ft)"
    by (cases acc)
  with Nil show ?case by simp
next
  case (Cons a as)
  from Cons.prems(2) obtain m where n: "n = Suc m" "length as \<le> m"
    by (cases n) auto
  from Cons.prems(1) obtain c where c: "p = Some a" "heap s a = Some c" "clist (heap s) (nxt c) as"
    by (auto split: option.splits)
  obtain al fs ft where acc: "acc = (al, fs, ft)"
    by (cases acc)
  have step: "\<exists>r. bnd (band_loop m s (nxt c) acc') (\<lambda>(ws, al'). Inr (k # ws, al')) = Inr r"
    for acc' k
  proof -
    from Cons.IH [OF c(3) n(2)] obtain r where "band_loop m s (nxt c) acc' = Inr r"
      by blast
    then show ?thesis
      by (cases r) (simp add: bnd_def)
  qed
  from Cons.IH [OF c(3) n(2)] step n c show ?case
    unfolding acc by simp
qed

lemma stacking_accesses_total:
  assumes "clist (heap s) (head s) as" and "length as \<le> n" and "current s \<in> Some ` set as"
  shows "\<exists>r. stacking_accesses n s = Inr r"
proof -
  from count_loop_total [OF assms(1,2)] obtain al fs ft
    where cnt: "count_loop n (heap s) (head s) (0, 0, 0) = Inr (al, fs, ft)"
    by (metis prod_cases3)
  from assms(1,3) obtain cur where cur: "deref s (current s) = Inr cur"
    by (auto simp: deref_Inr dest: clist_allocated)
  from assms(1,3) obtain hc where hc: "deref s (head s) = Inr hc"
    by (cases as) (auto simp: deref_Inr split: option.splits)
  from band_loop_total [OF assms(1,2)] obtain ws al'
    where "band_loop n s (head s) (al, if FFT hc then inc32 fs else fs, ft) = Inr (ws, al')"
    by (metis surj_pair)
  with cnt cur hc show ?thesis
    by (simp add: stacking_accesses_def bnd_def Let_def)
qed

lemma prev_client_total:
  assumes l: "clist (heap s) (head s) as" and n: "length as \<le> n" and ok: "as \<noteq> [] \<or> c = None"
  shows "\<exists>p. prev_client n c s = Inr p \<and> (p = None \<or> p \<in> Some ` set as) \<and>
           (length as \<le> 1 \<longrightarrow> p = None)"
proof -
  consider "c = None \<or> length as = 1" | i where "Suc i < length as" "c = Some (as ! Suc i)"
    | "2 \<le> length as" "c \<noteq> None" "c \<notin> Some ` set (tl as)"
  proof (cases "c = None \<or> length as = 1")
    case True
    then show ?thesis using that by blast
  next
    case False
    with ok have len: "2 \<le> length as"
      by (cases as) (auto simp: Suc_le_eq)
    show ?thesis
    proof (cases "c \<in> Some ` set (tl as)")
      case True
      then obtain j where "j < length (tl as)" "c = Some (tl as ! j)"
        by (auto simp: in_set_conv_nth)
      then have "Suc j < length as" "c = Some (as ! Suc j)"
        by (auto simp: nth_tl)
      then show ?thesis using that by blast
    next
      case nin: False
      with len False show ?thesis using that by blast
    qed
  qed
  then show ?thesis
  proof cases
    case 1
    with prev_client_cases [OF l n, of c 0] show ?thesis by auto
  next
    case (2 i)
    with prev_client_cases [OF l n, of c i] show ?thesis by auto
  next
    case 3
    with prev_client_cases [OF l n, of c 0] show ?thesis
      by (cases as rule: rev_cases) auto
  qed
qed

section \<open>Calls that return on a quiet state\<close>

lemma workspace_info_loop_total:
  "current_workspace t < WORKSPACES cfg
    \<Longrightarrow> (\<forall>v. w \<le> v \<and> v < WORKSPACES cfg
          \<longrightarrow> (\<exists>as. clients_from n (heap t) (ws_head (workspaces (flush t) v)) = Inr as))
    \<Longrightarrow> \<exists>r. workspace_info_loop cfg n w t = Inr r"
proof (induction cfg n w t rule: workspace_info_loop.induct)
  case (1 cfg n w s)
  show ?case
  proof (cases "w < WORKSPACES cfg")
    case True
    from "1.prems"(1) True have sel: "select_workspace cfg (int w) s = Inr (load w (flush s))"
      by (rule select_workspace_valid)
    from "1.prems"(2) True obtain as where
        walk: "clients_from n (heap (load w (flush s))) (head (load w (flush s))) = Inr as"
      by (metis load_fields(1,2) flush_fields(1) le_refl)
    have "\<exists>r. workspace_info_loop cfg n (Suc w) (load w (flush s)) = Inr r"
    proof (rule "1.IH" [OF True sel walk])
      show "current_workspace (load w (flush s)) < WORKSPACES cfg"
        using True by simp
      show "\<forall>v. Suc w \<le> v \<and> v < WORKSPACES cfg \<longrightarrow>
          (\<exists>as. clients_from n (heap (load w (flush s)))
             (ws_head (workspaces (flush (load w (flush s))) v)) = Inr as)"
        using "1.prems"(2) by (simp only: flush_load load_fields flush_fields) auto
    qed
    then show ?thesis
      by (subst workspace_info_loop.simps) (simp only: True if_True sel walk sum.case)
  next
    case False
    then show ?thesis
      by (subst workspace_info_loop.simps) simp
  qed
qed

lemma quiet_walk:
  assumes "quiet t" and "clist (heap t) (head t) bs" and "length bs \<le> n"
  shows "\<exists>as. clients_from n (heap t) (ws_head (workspaces (flush t) v)) = Inr as"
proof (cases "v = 0")
  case True
  with assms clients_from_total [OF assms(2,3)] show ?thesis
    by (simp add: quiet_def)
next
  case False
  with assms(1) show ?thesis
    by (simp add: quiet_def)
qed

lemma quiet_find:
  assumes "quiet t" and "clist (heap t) (head t) bs" and "length bs \<le> n"
  shows "\<exists>r. find_win n (heap t) (ws_head (workspaces (flush t) v)) wn = Inr r \<and>
           (r = None \<or> r \<in> Some ` set bs)"
proof (cases "v = 0")
  case True
  with assms find_win_total [OF assms(2,3), of wn] show ?thesis
    by (simp add: quiet_def)
next
  case False
  with assms(1) show ?thesis
    by (simp add: quiet_def)
qed

lemma workspace_info_quiet:
  assumes q: "quiet t" and W: "0 < WORKSPACES cfg"
    and l: "clist (heap t) (head t) bs" and n: "length bs \<le> n"
  shows "workspace_info cfg n t = Inr (flush t)"
proof -
  from q W have cw: "current_workspace t < WORKSPACES cfg"
    by (simp add: quiet_def)
  have "\<exists>r. workspace_info_loop cfg n 0 t = Inr r"
    using cw quiet_walk [OF q l n] by (intro workspace_info_loop_total) blast+
  then obtain w t1 where loop: "workspace_info_loop cfg n 0 t = Inr (w, t1)"
    by (metis surj_pair)
  from workspace_info_loop_state [OF loop cw] W
  have t1: "t1 = load (WORKSPACES cfg - 1) (flush t)"
    by simp
  with W have "current_workspace t1 < WORKSPACES cfg"
    by simp
  then have "select_workspace cfg (int (current_workspace t)) t1
      = Inr (load (current_workspace t) (flush t1))"
    using cw by (rule select_workspace_valid)
  with loop have "\<exists>s'. workspace_info cfg n t = Inr s'"
    by (simp add: workspace_info_def Let_def bnd_def)
  then obtain s' where r: "workspace_info cfg n t = Inr s'"
    by blast
  with workspace_info_Inr [OF r] show ?thesis
    by simp
qed

lemma win_to_client_loop_total:
  "current_workspace t < WORKSPACES cfg
    \<Longrightarrow> (\<forall>v. w \<le> v \<and> v < WORKSPACES cfg
          \<longrightarrow> (\<exists>r. find_win n (heap t) (ws_head (workspaces (flush t) v)) wn = Inr r \<and>
                   (r = None \<or> P r)))
    \<Longrightarrow> \<exists>w' c t'. win_to_client_loop cfg n wn w t = Inr (w', c, t') \<and> (c = None \<or> P c)"
proof (induction cfg n wn w t rule: win_to_client_loop.induct)
  case (1 cfg n wn w s)
  show ?case
  proof (cases "w < WORKSPACES cfg")
    case True
    from "1.prems"(1) True have sel: "select_workspace cfg (int w) s = Inr (load w (flush s))"
      by (rule select_workspace_valid)
    from "1.prems"(2) True obtain r where
        look: "find_win n (heap (load w (flush s))) (head (load w (flush s))) wn = Inr r"
      and r: "r = None \<or> P r"
      by (metis load_fields(1,2) flush_fields(1) le_refl)
    show ?thesis
    proof (cases "r = None")
      case rn: True
      have "\<exists>w' c t'. win_to_client_loop cfg n wn (Suc w) (load w (flush s)) = Inr (w', c, t')
          \<and> (c = None \<or> P c)"
      proof (rule "1.IH" [OF True sel look])
        show "\<not> r \<noteq> None"
          using rn by simp
        show "current_workspace (load w (flush s)) < WORKSPACES cfg"
          using True by simp
        show "\<forall>v. Suc w \<le> v \<and> v < WORKSPACES cfg \<longrightarrow>
            (\<exists>r. find_win n (heap (load w (flush s)))
               (ws_head (workspaces (flush (load w (flush s))) v)) wn = Inr r \<and>
               (r = None \<or> P r))"
          using "1.prems"(2) by (simp only: flush_load load_fields flush_fields) auto
      qed
      then show ?thesis
        by (subst win_to_client_loop.simps)
          (simp only: True if_True sel look sum.case rn simp_thms if_False)
    next
      case False
      with r show ?thesis
        by (subst win_to_client_loop.simps)
          (simp only: True if_True sel look sum.case simp_thms sum.inject prod.inject; blast)
    qed
  next
    case False
    then show ?thesis
      by (subst win_to_client_loop.simps) simp
  qed
qed

lemma win_to_client_quiet:
  assumes q: "quiet t" and W: "0 < WORKSPACES cfg"
    and l: "clist (heap t) (head t) bs" and n: "length bs \<le> n"
  shows "\<exists>c. win_to_client cfg n wn t = Inr (c, flush t) \<and> (c = None \<or> c \<in> Some ` set bs)"
proof -
  from q W have cw: "current_workspace t < WORKSPACES cfg"
    by (simp add: quiet_def)
  have "\<exists>w' c t'. win_to_client_loop cfg n wn 0 t = Inr (w', c, t') \<and>
      (c = None \<or> c \<in> Some ` set bs)"
    using cw quiet_find [OF q l n] by (intro win_to_client_loop_total) blast+
  then obtain w' c t1 where loop: "win_to_client_loop cfg n wn 0 t = Inr (w', c, t1)"
    and c: "c = None \<or> c \<in> Some ` set bs"
    by blast
  from win_to_client_loop_state [OF loop cw] W
  have t1: "t1 = load (w' - 1) (flush t)"
    by simp
  from win_to_client_loop_index [OF loop] have "w' \<le> WORKSPACES cfg"
    by simp
  with t1 W have "current_workspace t1 < WORKSPACES cfg"
    by simp
  then have "select_workspace cfg (int (current_workspace t)) t1
      = Inr (load (current_workspace t) (flush t1))"
    using cw by (rule select_workspace_valid)
  with loop have "\<exists>s'. win_to_client cfg n wn t = Inr (c, s')"
    by (simp add: win_to_client_def Let_def bnd_def)
  then obtain s' where r: "win_to_client cfg n wn t = Inr (c, s')"
    by blast
  with win_to_client_Inr [OF r] c show ?thesis
    by simp
qed

lemma arrange_windows_quiet:
  assumes q: "quiet t" and W: "0 < WORKSPACES cfg"
    and l: "clist (heap t) (head t) bs" and n: "length bs \<le> n" and z: "layout t = ZOOM"
  shows "arrange_windows cfg n t = Inr (if head t = None then t else flush t)"
proof (cases "head t")
  case None
  then show ?thesis
    by (simp add: arrange_windows_def)
next
  case (Some a)
  with l obtain hc where hc: "heap t a = Some hc"
    by (cases bs) (auto split: option.splits)
  from zoom_loop_total [OF l n] obtain gs where "zoom_loop cfg n t (head t) = Inr gs"
    by blast
  with Some hc z workspace_info_quiet [OF q W l n] show ?thesis
    by (simp add: arrange_windows_def arrange_index_def deref_def layout_handler_def zoom_def
        bnd_def layout_ids)
qed

lemma update_focused_client_total:
  assumes q: "quiet t" and W: "0 < WORKSPACES cfg"
    and l: "clist (heap t) (head t) bs" and n: "length bs \<le> n" and z: "layout t = ZOOM"
    and pf: "prev_foc t = None \<or> prev_foc t \<in> Some ` set bs"
    and c: "c = prev_foc t \<or> c \<in> Some ` set bs"
  shows "\<exists>s'. update_focused_client cfg n c t = Inr s'"
proof (cases "head t = None")
  case True
  then show ?thesis
    by (simp add: update_focused_client_def)
next
  case False
  with l have ne: "bs \<noteq> []"
    by (cases bs) auto
  with l have hd: "head t \<in> Some ` set bs"
    by (cases bs) (auto split: option.splits)
  define br where "br =
    (if c = prev_foc t
     then (let s1 = t\<lparr>current := (if prev_foc t \<noteq> None then prev_foc t else head t)\<rparr>
           in bnd (prev_client n (current s1) s1) (\<lambda>p. Inr (s1\<lparr>prev_foc := p\<rparr>)))
     else if c \<noteq> current t then Inr (t\<lparr>prev_foc := current t, current := c\<rparr>)
     else Inr t)"
  have "\<exists>s2. br = Inr s2 \<and> heap s2 = heap t \<and> head s2 = head t \<and> layout s2 = layout t \<and>
      workspaces s2 = workspaces t \<and> current_workspace s2 = current_workspace t \<and>
      current s2 \<in> Some ` set bs"
  proof (cases "c = prev_foc t")
    case True
    define cur where "cur = (if prev_foc t \<noteq> None then prev_foc t else head t)"
    define s1 where "s1 = t\<lparr>current := cur\<rparr>"
    have cur_in: "cur \<in> Some ` set bs"
      using pf hd by (auto simp: cur_def)
    have cs1: "current s1 = cur"
      by (simp add: s1_def)
    have "clist (heap s1) (head s1) bs"
      using l by (simp add: s1_def)
    from prev_client_total [OF this n, of cur] ne
    obtain p where p: "prev_client n cur s1 = Inr p"
      by blast
    have "br = Inr (s1\<lparr>prev_foc := p\<rparr>)"
      unfolding br_def Let_def cur_def [symmetric] s1_def [symmetric]
      by (simp add: True cs1 p bnd_def)
    then show ?thesis
      using cur_in by (simp add: s1_def)
  next
    case False
    with c have "c \<in> Some ` set bs"
      by simp
    with False show ?thesis
      by (cases "c = current t") (simp_all add: br_def)
  qed
  then obtain s2 where br: "br = Inr s2" and same: "heap s2 = heap t" "head s2 = head t"
      "layout s2 = layout t" "workspaces s2 = workspaces t"
      "current_workspace s2 = current_workspace t"
    and cur: "current s2 \<in> Some ` set bs"
    by blast
  from l same have l2: "clist (heap s2) (head s2) bs"
    by simp
  from q same have q2: "quiet s2"
    by (simp add: quiet_def)
  from stacking_accesses_total [OF l2 n cur] obtain acc where "stacking_accesses n s2 = Inr acc"
    by blast
  moreover have "arrange_windows cfg n s2 = Inr (if head s2 = None then s2 else flush s2)"
    using q2 W l2 n by (rule arrange_windows_quiet) (simp add: same z)
  ultimately show ?thesis
    using False br
    by (simp add: update_focused_client_def br_def [symmetric] bnd_def)
qed

section \<open>Create notifications are handled\<close>

lemma bnd_Inr_eq: "bnd (Inr v) f = f v"
  by (simp add: bnd_def)

lemma bnd_Inl_eq: "bnd (Inl e) f = Inl e"
  by (simp add: bnd_def)

lemma upd_client_allocated:
  "heap s a = Some c \<Longrightarrow> upd_client (Some a) f s = Inr (s\<lparr>heap := (heap s)(a \<mapsto> f c)\<rparr>)"
  by (simp add: upd_client_def)

lemma calm_at_rest: "calm s as \<Longrightarrow> at_rest s"
  by (auto simp: calm_def quiet_def at_rest_def)

lemma at_rest_calm:
  "at_rest s \<Longrightarrow> clist (heap s) (head s) as \<Longrightarrow> layout s = ZOOM \<Longrightarrow> focus_ok s as \<Longrightarrow> calm s as"
  by (auto simp: calm_def quiet_def at_rest_def)

lemma clist_head_in:
  assumes "clist h p as" and "p \<noteq> None"
  shows "p \<in> Some ` set as"
  using assms by (cases as) auto

lemma clist_head_None:
  assumes "clist h p as"
  shows "as \<noteq> [] \<or> p = None"
  using assms by (cases as) auto

text \<open>\<^verbatim>\<open>client_from_window\<close> on a null-terminated list with enough fuel: it returns, unless
  \<^verbatim>\<open>calloc\<close> gave no block or gave one that is in use.\<close>

lemma client_from_window_total:
  assumes l: "clist (heap s) (head s) as" and n: "length as \<le> n"
  shows "client_from_window cfg n a wn s = Inl Alloc_Failure \<or>
         client_from_window cfg n a wn s = Inl Block_In_Use \<or>
         (\<exists>c s'. client_from_window cfg n a wn s = Inr (c, s'))"
proof (cases a)
  case None
  from prev_client_total [OF l n clist_head_None [OF l]]
  obtain p where "prev_client n (head s) s = Inr p"
    by blast
  with None show ?thesis
    by (simp add: client_from_window_def bnd_def)
next
  case (Some ca)
  show ?thesis
  proof (cases "heap s ca = None")
    case False
    with Some show ?thesis
      by (simp add: client_from_window_def)
  next
    case True
    define s1 where "s1 = s\<lparr>heap := (heap s)(ca \<mapsto> zero_client)\<rparr>"
    define F where "F = (\<lambda>c :: Client. c\<lparr>nxt := a\<rparr>)"
    define G where "G = (\<lambda>c :: Client. c\<lparr>win := wn\<rparr>)"
    have nin: "ca \<notin> set as"
      using clist_allocated [OF l] True by blast
    have l1: "clist (heap s1) (head s1) as"
      using l nin by (simp add: s1_def clist_upd_notin)
    from prev_client_total [OF l1 n clist_head_None [OF l1]]
    obtain t where t: "prev_client n (head s1) s1 = Inr t" and tin: "t = None \<or> t \<in> Some ` set as"
      by blast
    have new: "heap s1 ca \<noteq> None"
      by (simp add: s1_def)
    define link where "link =
      (if head s1 = None then Inr (s1\<lparr>head := a\<rparr>)
       else if t \<noteq> None then upd_client t F s1 else upd_client (head s1) F s1)"
    have "\<exists>s2. link = Inr s2 \<and> heap s2 ca \<noteq> None"
    proof (cases "head s1 = None")
      case True
      with new show ?thesis
        by (simp add: link_def)
    next
      case False
      define q where "q = (if t \<noteq> None then t else head s1)"
      have lq: "link = upd_client q F s1"
        unfolding link_def q_def using False by (cases "t = None") auto
      have "q \<in> Some ` set as"
        using tin clist_head_in [OF l1 False] by (auto simp: q_def)
      then obtain b where b: "q = Some b" "b \<in> set as"
        by auto
      with clist_allocated [OF l1] obtain cb where cb: "heap s1 b = Some cb"
        by auto
      from upd_client_allocated [OF cb, of F] b(1) lq
      have "link = Inr (s1\<lparr>heap := (heap s1)(b \<mapsto> F cb)\<rparr>)"
        by simp
      with new show ?thesis
        by simp
    qed
    then obtain s2 cc where s2: "link = Inr s2" and cc: "heap s2 ca = Some cc"
      by auto
    from upd_client_allocated [OF cc, of G]
    have s3: "upd_client a G s2 = Inr (s2\<lparr>heap := (heap s2)(ca \<mapsto> G cc)\<rparr>)"
      by (simp add: Some)
    have "client_from_window cfg n a wn s =
        bnd (prev_client n (head s1) s1) (\<lambda>t.
          bnd (if head s1 = None then Inr (s1\<lparr>head := a\<rparr>)
               else if t \<noteq> None then upd_client t F s1 else upd_client (head s1) F s1)
            (\<lambda>s2. bnd (upd_client a G s2) (\<lambda>s3. Inr (a, s3))))"
      unfolding client_from_window_def s1_def F_def G_def Let_def using True
      by (simp add: Some)
    also have "\<dots> = bnd link (\<lambda>s2. bnd (upd_client a G s2) (\<lambda>s3. Inr (a, s3)))"
      unfolding t bnd_Inr_eq link_def by (rule refl)
    also have "\<dots> = Inr (a, s2\<lparr>heap := (heap s2)(ca \<mapsto> G cc)\<rparr>)"
      unfolding s2 bnd_Inr_eq s3 by (rule refl)
    finally show ?thesis
      by blast
  qed
qed

text \<open>A create notification in a calm state whose list is shorter than the fuel: the
  handler returns a calm state with at most one client more, or stops on the answer of
  \<^verbatim>\<open>calloc\<close>.\<close>

lemma map_request_event_total:
  assumes inv: "calm s as" and W: "0 < WORKSPACES cfg" and n: "length as < n"
  shows "(\<exists>s' as'. map_request_event cfg n wn wa transient a s = Inr s' \<and> calm s' as' \<and>
            length as' \<le> Suc (length as)) \<or>
         map_request_event cfg n wn wa transient a s = Inl Alloc_Failure \<or>
         map_request_event cfg n wn wa transient a s = Inl Block_In_Use"
proof -
  from inv have q: "quiet s" and fl: "flush s = s" and l: "clist (heap s) (head s) as"
    and z: "layout s = ZOOM" and f: "focus_ok s as"
    by (simp_all add: calm_def)
  from n have n': "length as \<le> n"
    by simp
  define F where "F = (\<lambda>cl :: Client. cl\<lparr>is_floating := (transient \<noteq> 0),
    is_transient := (transient \<noteq> 0)\<rparr>)"
  define rest where "rest = (\<lambda>(c, s2).
    bnd (upd_client c F s2) (\<lambda>s3.
      bnd (arrange_windows cfg n s3) (\<lambda>s4. update_focused_client cfg n c s4)))"
  show ?thesis
  proof (cases "wa = None \<or> wa = Some True")
    case True
    then have "map_request_event cfg n wn wa transient a s = Inr s"
      unfolding map_request_event_def by (rule if_P)
    with inv show ?thesis
      by auto
  next
    case wa: False
    from win_to_client_quiet [OF q W l n', of wn] fl
    obtain t where t: "win_to_client cfg n wn s = Inr (t, s)"
      by auto
    have mre: "map_request_event cfg n wn wa transient a s =
        (if t \<noteq> None then Inr s else bnd (client_from_window cfg n a wn s) rest)"
      unfolding map_request_event_def rest_def F_def t bnd_Inr_eq prod.case using wa
      by (simp only: if_False)
    show ?thesis
    proof (cases "t = None")
      case False
      with mre have "map_request_event cfg n wn wa transient a s = Inr s"
        by simp
      with inv show ?thesis
        by auto
    next
      case True
      with mre have mre': "map_request_event cfg n wn wa transient a s =
          bnd (client_from_window cfg n a wn s) rest"
        by simp
      from client_from_window_total [OF l n', of cfg a wn]
      consider (af) "client_from_window cfg n a wn s = Inl Alloc_Failure"
        | (bu) "client_from_window cfg n a wn s = Inl Block_In_Use"
        | (ok) c s2 where "client_from_window cfg n a wn s = Inr (c, s2)"
        by blast
      then show ?thesis
      proof cases
        case af
        with mre' show ?thesis
          by (simp add: bnd_Inl_eq)
      next
        case bu
        with mre' show ?thesis
          by (simp add: bnd_Inl_eq)
      next
        case (ok c s2)
        from client_from_window_Inr [OF ok l] obtain ca where ca: "a = Some ca" "c = Some ca"
            "heap s ca = None" and s2: "s2 = s\<lparr>heap := heap s2, head := head s2\<rparr>"
          and l2: "clist (heap s2) (head s2) (as @ [ca])"
          by blast
        have same2: "layout s2 = layout s" "workspaces s2 = workspaces s"
            "current_workspace s2 = current_workspace s" "prev_foc s2 = prev_foc s"
            "current s2 = current s"
          by (subst s2, simp)+
        from clist_allocated [OF l2, of ca] obtain cc where cc: "heap s2 ca = Some cc"
          by auto
        define s3 where "s3 = s2\<lparr>heap := (heap s2)(ca \<mapsto> F cc)\<rparr>"
        have u: "upd_client c F s2 = Inr s3"
          using upd_client_allocated [OF cc, of F] by (simp add: ca s3_def)
        have l3: "clist (heap s3) (head s3) (as @ [ca])"
          using clist_upd_same_nxt [OF l2 cc, of "F cc"] by (simp add: s3_def F_def)
        have q3: "quiet s3"
          using q same2 by (simp add: quiet_def s3_def)
        have z3: "layout s3 = ZOOM"
          using z same2 by (simp add: s3_def)
        have n3: "length (as @ [ca]) \<le> n"
          using n by simp
        have hd3: "head s3 \<noteq> None"
          using clist_head [OF l3] by simp
        from arrange_windows_quiet [OF q3 W l3 n3 z3] hd3
        have aw: "arrange_windows cfg n s3 = Inr (flush s3)"
          by simp
        define s4 where "s4 = flush s3"
        have q4: "quiet s4"
          using q3 by (simp add: quiet_def s4_def)
        have l4: "clist (heap s4) (head s4) (as @ [ca])"
          using l3 by (simp add: s4_def)
        have z4: "layout s4 = ZOOM"
          using z3 by (simp add: s4_def)
        have foc4: "prev_foc s4 = prev_foc s" "current s4 = current s"
          using same2 by (simp_all add: s4_def s3_def)
        have pf4: "prev_foc s4 = None \<or> prev_foc s4 \<in> Some ` set (as @ [ca])"
          using f by (auto simp: focus_ok_def foc4)
        have cin: "c = prev_foc s4 \<or> c \<in> Some ` set (as @ [ca])"
          by (simp add: ca)
        from update_focused_client_total [OF q4 W l4 n3 z4 pf4 cin]
        obtain s' where ufc: "update_focused_client cfg n c s4 = Inr s'"
          by blast
        have run: "map_request_event cfg n wn wa transient a s = Inr s'"
          unfolding mre' ok bnd_Inr_eq rest_def prod.case u aw s4_def [symmetric] ufc
          by (rule refl)
        have ar: "at_rest s'"
          using calm_at_rest [OF inv] run by (rule map_request_event_at_rest)
        have nin: "ca \<notin> set as"
          using clist_allocated [OF l] ca(3) by blast
        have cur: "current s = None \<or> current s \<in> Some ` set as"
          using f by (cases "as = []") (simp_all add: focus_ok_def)
        have cne: "c \<noteq> prev_foc s4" "c \<noteq> current s4"
          using f cur nin by (auto simp: focus_ok_def foc4 ca)
        have hd4: "head s4 \<noteq> None"
          using hd3 by (simp add: s4_def)
        from update_focused_client_Inr [OF ufc] hd4 cne
        have s': "s' = flush (s4\<lparr>current := c, prev_foc := current s4\<rparr>)"
          by auto
        have l': "clist (heap s') (head s') (as @ [ca])"
          using l4 by (simp add: s')
        have z': "layout s' = ZOOM"
          using z4 by (simp add: s')
        have "current s' = Some ca" "prev_foc s' = current s"
          by (simp_all add: s' ca foc4)
        with cur f have "focus_ok s' (as @ [ca])"
          by (auto simp: focus_ok_def)
        with ar l' z' have "calm s' (as @ [ca])"
          by (intro at_rest_calm)
        with run show ?thesis
          by (intro disjI1 exI [of _ s'] exI [of _ "as @ [ca]"]) simp
      qed
    qed
  qed
qed

section \<open>Destroy notifications are handled\<close>

lemma remove_find_total:
  "clist (heap s) v (xs @ a # ys) \<Longrightarrow> read_loc s l = Inr v \<Longrightarrow> length xs < n
    \<Longrightarrow> remove_find n s (Some a) l = Inr (if xs = [] then l else Next_Loc (last xs), True)"
proof (induction xs arbitrary: l v n)
  case Nil
  then obtain m where "n = Suc m"
    by (cases n) auto
  with Nil show ?case
    by (simp add: remove_find_step)
next
  case (Cons x xs)
  from Cons.prems(3) obtain m where n: "n = Suc m" "length xs < m"
    by (cases n) auto
  from Cons.prems(1) obtain cx where cx: "v = Some x" "heap s x = Some cx"
      "clist (heap s) (nxt cx) (xs @ a # ys)"
    by (auto split: option.splits)
  from clist_distinct [OF Cons.prems(1)] have ne: "x \<noteq> a"
    by auto
  have rd: "read_loc s (Next_Loc x) = Inr (nxt cx)"
    using cx(2) by (simp add: read_loc_def deref_def bnd_def)
  from Cons.IH [OF cx(3) rd n(2)] Cons.prems(2) cx(1) ne n(1) show ?case
    by (simp add: remove_find_step)
qed

text \<open>The focus variables after \<^verbatim>\<open>update_focused_client(prev_foc)\<close>.\<close>

lemma update_focused_client_prev_focus_ok:
  assumes l: "clist (heap t) (head t) bs" and n: "length bs \<le> n"
    and pf: "prev_foc t = None \<or> prev_foc t \<in> Some ` set bs"
    and run: "update_focused_client cfg n (prev_foc t) t = Inr u"
  shows "focus_ok u bs \<and> layout u = layout t"
proof (cases "head t = None")
  case True
  with l have "bs = []"
    by (cases bs) auto
  with update_focused_client_Inr [OF run] True show ?thesis
    by (simp add: focus_ok_def)
next
  case False
  with l have ne: "bs \<noteq> []"
    by (cases bs) auto
  define cur where "cur = (if prev_foc t \<noteq> None then prev_foc t else head t)"
  have cur_in: "cur \<in> Some ` set bs"
    using pf clist_head_in [OF l False] by (auto simp: cur_def)
  from update_focused_client_Inr [OF run] False
  obtain p where u: "u = flush (t\<lparr>current := cur, prev_foc := p\<rparr>)"
    and p: "prev_client n cur t = Inr p"
    by (auto simp: cur_def)
  from prev_client_total [OF l n, of cur] ne p
  have "p = None \<or> p \<in> Some ` set bs" "length bs \<le> 1 \<longrightarrow> p = None"
    by auto
  with cur_in ne show ?thesis
    by (simp add: focus_ok_def u)
qed

text \<open>\<^verbatim>\<open>remove_client\<close> for a member of the list of a calm state: it returns a calm state
  without that client.\<close>

lemma remove_client_total:
  assumes inv: "calm s as" and W: "0 < WORKSPACES cfg" and n: "length as \<le> n"
    and c: "c = Some a" and a: "a \<in> set as"
  shows "\<exists>s' as'. remove_client cfg n c s = Inr s' \<and> calm s' as' \<and> length as' \<le> length as"
proof -
  from inv have q: "quiet s" and fl: "flush s = s" and l: "clist (heap s) (head s) as"
    and z: "layout s = ZOOM" and f: "focus_ok s as"
    by (simp_all add: calm_def)
  from q have cw0: "current_workspace s = 0"
    and empty: "\<And>w. w \<noteq> 0 \<Longrightarrow> ws_head (workspaces s w) = None"
    by (simp_all add: quiet_def)
  from a obtain xs ys where as: "as = xs @ a # ys"
    by (auto simp: in_set_conv_decomp)
  from clist_distinct [OF l] have nin: "a \<notin> set (xs @ ys)"
    by (simp add: as)
  from clist_allocated [OF l a] obtain ca where ca: "heap s a = Some ca"
    by auto
  have n2: "length (xs @ ys) \<le> n"
    using n by (simp add: as)

  \<comment> \<open>the search\<close>
  define temp where "temp = (if xs = [] then Head_Loc else Next_Loc (last xs))"
  have "read_loc s Head_Loc = Inr (head s)"
    by (simp add: read_loc_def)
  from remove_find_total [OF l [unfolded as] this, of n] n
  have rf: "remove_find n s c Head_Loc = Inr (temp, True)"
    by (simp add: as c temp_def)
  have sel: "select_workspace cfg (int (current_workspace s)) s = Inr s"
    using select_workspace_valid [of s cfg "current_workspace s"] W cw0 fl
      load_flush_current [of s]
    by simp
  have loop: "remove_client_loop cfg n c (int (current_workspace s)) 0 Null_Loc s
      = Inr (Suc 0, temp, s)"
    by (subst remove_client_loop.simps) (simp add: W sel rf)
  have d: "deref s c = Inr ca"
    by (simp add: deref_def c ca)

  \<comment> \<open>the client is unlinked\<close>
  have "\<exists>s2. write_loc temp (nxt ca) s = Inr s2 \<and> clist (heap s2) (head s2) (xs @ ys) \<and>
      layout s2 = layout s \<and> workspaces s2 = workspaces s \<and>
      current_workspace s2 = current_workspace s \<and> prev_foc s2 = prev_foc s \<and>
      current s2 = current s \<and> heap s2 a \<noteq> None"
  proof (cases xs rule: rev_cases)
    case Nil
    with l ca show ?thesis
      by (simp add: as temp_def write_loc_def)
  next
    case (snoc xs' b)
    have b: "b \<in> set as"
      by (simp add: as snoc)
    from clist_allocated [OF l b] obtain cb where cb: "heap s b = Some cb"
      by auto
    from l have "clist (heap s) (head s) (xs' @ b # a # ys)"
      by (simp add: as snoc)
    from clist_unlink [OF this cb ca]
    have "clist ((heap s)(b \<mapsto> cb\<lparr>nxt := nxt ca\<rparr>)) (head s) (xs @ ys)"
      by (simp add: snoc)
    with cb ca show ?thesis
      by (simp add: temp_def snoc write_loc_def upd_client_allocated)
  qed
  then obtain s2 where wl: "write_loc temp (nxt ca) s = Inr s2"
    and l2: "clist (heap s2) (head s2) (xs @ ys)"
    and same2: "layout s2 = layout s" "workspaces s2 = workspaces s"
      "current_workspace s2 = current_workspace s" "prev_foc s2 = prev_foc s"
      "current s2 = current s"
    and a2: "heap s2 a \<noteq> None"
    by blast
  have pfs: "prev_foc s = None \<or> prev_foc s \<in> Some ` set as"
    and curs: "current s \<in> Some ` set as"
    and short: "length as \<le> 1 \<longrightarrow> prev_foc s = None"
    using f by (simp_all add: focus_ok_def as)

  \<comment> \<open>\<^verbatim>\<open>prev_foc\<close> moves off the client\<close>
  define mend where "mend = (if c = prev_foc s2
    then bnd (prev_client n c s2) (\<lambda>p. Inr (s2\<lparr>prev_foc := p\<rparr>)) else Inr s2)"
  have "\<exists>s3. mend = Inr s3 \<and> heap s3 = heap s2 \<and> head s3 = head s2 \<and> layout s3 = layout s2 \<and>
      workspaces s3 = workspaces s2 \<and> current_workspace s3 = current_workspace s2 \<and>
      current s3 = current s2 \<and> (prev_foc s3 = None \<or> prev_foc s3 \<in> Some ` set (xs @ ys))"
  proof (cases "c = prev_foc s2")
    case True
    with short same2 c have "xs @ ys \<noteq> []"
      by (auto simp: as)
    with prev_client_total [OF l2 n2, of c]
    obtain p where "prev_client n c s2 = Inr p" "p = None \<or> p \<in> Some ` set (xs @ ys)"
      by blast
    with True show ?thesis
      by (simp add: mend_def bnd_def)
  next
    case False
    with pfs same2 c have "prev_foc s2 = None \<or> prev_foc s2 \<in> Some ` set (xs @ ys)"
      by (auto simp: as)
    with False show ?thesis
      by (simp add: mend_def)
  qed
  then obtain s3 where s3: "mend = Inr s3"
    and same3: "heap s3 = heap s2" "head s3 = head s2" "layout s3 = layout s2"
      "workspaces s3 = workspaces s2" "current_workspace s3 = current_workspace s2"
      "current s3 = current s2"
    and pf3: "prev_foc s3 = None \<or> prev_foc s3 \<in> Some ` set (xs @ ys)"
    by blast
  have l3: "clist (heap s3) (head s3) (xs @ ys)"
    using l2 by (simp add: same3)
  have q3: "quiet s3"
    using q by (simp add: quiet_def same3 same2)
  have z3: "layout s3 = ZOOM"
    using z by (simp add: same3 same2)
  have hd3: "(if c = head s3 then s3\<lparr>head := None\<rparr> else s3) = s3"
  proof (cases "head s3 = None")
    case True
    then show ?thesis
      by (simp add: c)
  next
    case False
    from clist_head_in [OF l3 False] nin show ?thesis
      by (auto simp: c)
  qed

  \<comment> \<open>the focus moves off the client\<close>
  from update_focused_client_total [OF q3 W l3 n2 z3 pf3 disjI1 [OF refl]]
  obtain u where u: "update_focused_client cfg n (prev_foc s3) s3 = Inr u"
    by blast
  from update_focused_client_prev_focus_ok [OF l3 n2 pf3 u]
  have fu: "focus_ok u (xs @ ys)" "layout u = layout s3"
    by simp_all
  note frame = update_focused_client_frame [OF u]
  define foc where "foc = (if c = current s3 then update_focused_client cfg n (prev_foc s3) s3
    else bnd (deref s3 (head s3)) (\<lambda>hc.
      if nxt hc = None then update_focused_client cfg n (prev_foc s3) s3 else Inr s3))"
  have "\<exists>s5. foc = Inr s5 \<and> heap s5 = heap s3 \<and> head s5 = head s3 \<and> layout s5 = ZOOM \<and>
      quiet s5 \<and> focus_ok s5 (xs @ ys)"
  proof (cases "c = current s3")
    case True
    with u fu frame q3 z3 show ?thesis
      by (simp add: foc_def quiet_def)
  next
    case False
    with curs have cur3: "current s3 \<in> Some ` set (xs @ ys)"
      by (auto simp: same3 same2 as c)
    then have ne: "xs @ ys \<noteq> []"
      by auto
    with l3 obtain h hc where h: "head s3 = Some h" "heap s3 h = Some hc"
      by (cases "xs @ ys") (auto split: option.splits)
    have dh: "deref s3 (head s3) = Inr hc"
      by (simp add: deref_def h)
    show ?thesis
    proof (cases "nxt hc = None")
      case True
      with False dh u fu frame q3 z3 show ?thesis
        by (simp add: foc_def quiet_def bnd_def)
    next
      case nn: False
      with l3 h have "2 \<le> length (xs @ ys)"
        by (cases "xs @ ys"; cases "tl (xs @ ys)") auto
      with cur3 pf3 have "focus_ok s3 (xs @ ys)"
        by (auto simp: focus_ok_def)
      with False nn dh q3 z3 show ?thesis
        by (auto simp: foc_def bnd_def)
    qed
  qed
  then obtain s5 where s5: "foc = Inr s5" and same5: "heap s5 = heap s3" "head s5 = head s3"
    and z5: "layout s5 = ZOOM" and q5: "quiet s5" and f5: "focus_ok s5 (xs @ ys)"
    by blast

  \<comment> \<open>the block is freed, the windows arranged and the status line printed\<close>
  define s6 where "s6 = s5\<lparr>heap := (heap s5)(the c := None)\<rparr>"
  have l6: "clist (heap s6) (head s6) (xs @ ys)"
    using l3 nin by (simp add: s6_def c same5 clist_upd_notin)
  have q6: "quiet s6"
    using q5 by (simp add: quiet_def s6_def)
  have z6: "layout s6 = ZOOM"
    using z5 by (simp add: s6_def)
  have f6: "focus_ok s6 (xs @ ys)"
    using f5 by (simp add: focus_ok_def s6_def)
  define s7 where "s7 = (if head s6 = None then s6 else flush s6)"
  have aw: "(if int (current_workspace s) = int (Suc 0) - 1 then arrange_windows cfg n s6
      else select_workspace cfg (int (current_workspace s)) s6) = Inr s7"
    using arrange_windows_quiet [OF q6 W l6 n2 z6] by (simp add: cw0 s7_def)
  have l7: "clist (heap s7) (head s7) (xs @ ys)"
    using l6 by (cases "head s6 = None") (auto simp: s7_def)
  have q7: "quiet s7"
    using q6 by (cases "head s6 = None") (auto simp: quiet_def s7_def)
  have wi: "workspace_info cfg n s7 = Inr (flush s7)"
    using q7 W l7 n2 by (rule workspace_info_quiet)
  have z7: "layout s7 = ZOOM"
    using z6 by (cases "head s6 = None") (auto simp: s7_def)
  have f7: "focus_ok s7 (xs @ ys)"
    using f6 by (cases "head s6 = None") (auto simp: focus_ok_def s7_def)
  have "calm (flush s7) (xs @ ys)"
    using q7 l7 z7 f7 by (simp add: calm_def quiet_def focus_ok_def)
  moreover have "remove_client cfg n c s = Inr (flush s7)"
    unfolding remove_client_def Let_def loop bnd_Inr_eq prod.case d wl mend_def [symmetric] s3
      hd3 foc_def [symmetric] s5 s6_def [symmetric] aw wi
    by (rule refl)
  ultimately show ?thesis
    by (intro exI [of _ "flush s7"] exI [of _ "xs @ ys"]) (simp add: as)
qed

lemma destroy_event_total:
  assumes inv: "calm s as" and W: "0 < WORKSPACES cfg" and n: "length as \<le> n"
  shows "\<exists>s' as'. destroy_event cfg n wn s = Inr s' \<and> calm s' as' \<and> length as' \<le> length as"
proof -
  from inv have q: "quiet s" and fl: "flush s = s" and l: "clist (heap s) (head s) as"
    by (simp_all add: calm_def)
  from win_to_client_quiet [OF q W l n, of wn] fl
  obtain c where c: "win_to_client cfg n wn s = Inr (c, s)" "c = None \<or> c \<in> Some ` set as"
    by auto
  show ?thesis
  proof (cases "c = None")
    case True
    with c(1) have "destroy_event cfg n wn s = Inr s"
      by (simp add: destroy_event_def bnd_def)
    with inv show ?thesis
      by auto
  next
    case False
    with c(2) obtain a where a: "c = Some a" "a \<in> set as"
      by auto
    from False c(1) have "destroy_event cfg n wn s = remove_client cfg n c s"
      by (simp add: destroy_event_def bnd_def)
    with remove_client_total [OF inv W n a] show ?thesis
      by simp
  qed
qed

section \<open>Runs of create and destroy notifications return\<close>

lemma calm_init: "calm (init_state sw sh) []"
proof -
  have "flush (init_state sw sh) = init_state sw sh"
    using at_rest_init [of sw sh] by (simp add: at_rest_def)
  then show ?thesis
    by (simp add: calm_def quiet_def focus_ok_def) (simp add: init_state_def)
qed

lemma run_calm:
  "calm s as \<Longrightarrow> 0 < WORKSPACES cfg \<Longrightarrow> list_all create_destroy evs
    \<Longrightarrow> length as + length evs < n
    \<Longrightarrow> (\<exists>s' as'. run cfg n evs s = Inr s' \<and> calm s' as') \<or>
        run cfg n evs s = Inl Alloc_Failure \<or> run cfg n evs s = Inl Block_In_Use"
proof (induction evs arbitrary: s as)
  case Nil
  then show ?case by auto
next
  case (Cons e evs)
  from Cons.prems(3) have e: "create_destroy e" and evs: "list_all create_destroy evs"
    by simp_all
  from Cons.prems(4) have n: "length as < n" "length as \<le> n"
    by simp_all
  have "(\<exists>t bs. handle cfg n e s = Inr t \<and> calm t bs \<and> length bs \<le> Suc (length as)) \<or>
      handle cfg n e s = Inl Alloc_Failure \<or> handle cfg n e s = Inl Block_In_Use"
  proof (cases e)
    case (Map_Request wn wa transient a)
    with map_request_event_total [OF Cons.prems(1,2) n(1), of wn wa transient a] show ?thesis
      by simp
  next
    case (Destroy_Notify wn)
    from destroy_event_total [OF Cons.prems(1,2) n(2), of wn]
    obtain t bs where "destroy_event cfg n wn s = Inr t" "calm t bs" "length bs \<le> length as"
      by blast
    with Destroy_Notify show ?thesis
      by (intro disjI1 exI [of _ t] exI [of _ bs]) simp
  next
    case (Change_Workspace i)
    with e show ?thesis by simp
  next
    case (Change_Layout i)
    with e show ?thesis by simp
  qed
  then consider (ok) t bs where "handle cfg n e s = Inr t" "calm t bs"
      "length bs \<le> Suc (length as)"
    | (stop) "handle cfg n e s = Inl Alloc_Failure \<or> handle cfg n e s = Inl Block_In_Use"
    by blast
  then show ?case
  proof cases
    case ok
    from ok(3) Cons.prems(4) have "length bs + length evs < n"
      by simp
    from Cons.IH [OF ok(2) Cons.prems(2) evs this] ok(1) show ?thesis
      by (simp add: bnd_Inr_eq)
  next
    case stop
    then show ?thesis
      by (auto simp: bnd_Inl_eq)
  qed
qed

text \<open>
  From the initial state, with at least one workspace configured and more fuel than
  there are notifications, a sequence of create and destroy notifications is handled
  to the end, unless \<^verbatim>\<open>calloc\<close> returns \<^verbatim>\<open>NULL\<close> or a block that is in use: no null
  pointer is followed, no freed client is read, no division by zero happens (the layout
  stays \<^verbatim>\<open>ZOOM\<close>) and no loop over a list runs on.
\<close>

lemma create_destroy_runs_return:
  assumes "0 < WORKSPACES cfg" and "list_all create_destroy evs" and "length evs < n"
  shows "(\<exists>s. run cfg n evs (init_state sw sh) = Inr s) \<or>
         run cfg n evs (init_state sw sh) = Inl Alloc_Failure \<or>
         run cfg n evs (init_state sw sh) = Inl Block_In_Use"
  using run_calm [OF calm_init assms(1,2), of n sw sh] assms(3) by auto

section \<open>No client list has a cycle\<close>

text \<open>
  Claim C1. Take any sequence of map requests and destroy notifications, handled from
  the initial state by \<^verbatim>\<open>map_request_event\<close> (which appends through
  \<^verbatim>\<open>client_from_window\<close>) and \<^verbatim>\<open>destroy_event\<close> (which removes through
  \<^verbatim>\<open>remove_client\<close>). In the state it leads to, following \<^verbatim>\<open>next\<close> from the live
  \<^verbatim>\<open>head\<close>, and from the saved head of every workspace slot, visits finitely many
  distinct allocated clients and ends at \<^verbatim>\<open>NULL\<close>: no list has a cycle. Such a state is
  reached by every sequence for which \<^verbatim>\<open>calloc\<close> answers with fresh blocks
  (\<open>create_destroy_runs_return\<close>).
\<close>

theorem client_lists_acyclic:
  assumes "run cfg n evs (init_state sw sh) = Inr s" and "list_all create_destroy evs"
  shows "(\<exists>as. clist (heap s) (head s) as \<and> distinct as) \<and>
         (\<forall>w<WORKSPACES cfg. \<exists>as. clist (heap s) (ws_head (workspaces s w)) as \<and> distinct as)"
proof -
  have "at_rest s"
    using at_rest_init assms(2,1) by (rule run_at_rest)
  then obtain as where fl: "flush s = s" and cw: "current_workspace s = 0"
    and slots: "\<forall>w. w \<noteq> 0 \<longrightarrow> ws_head (workspaces s w) = None"
    and l: "clist (heap s) (head s) as"
    unfolding at_rest_def by blast
  have "workspaces (flush s) 0 = snapshot s"
    using cw by simp
  with fl have slot0: "ws_head (workspaces s 0) = head s"
    by simp
  have live: "clist (heap s) (head s) as \<and> distinct as"
    using l clist_distinct by blast
  have "\<exists>bs. clist (heap s) (ws_head (workspaces s w)) bs \<and> distinct bs" for w
  proof (cases "w = 0")
    case True
    with live slot0 show ?thesis by auto
  next
    case False
    with slots have "clist (heap s) (ws_head (workspaces s w)) [] \<and> distinct []"
      by simp
    then show ?thesis by blast
  qed
  with live show ?thesis by blast
qed

text \<open>Witness for C1: three windows are mapped and the second is destroyed; the list of
  workspace 0 is then 1, 3 and that of workspace 1 is empty.\<close>

theorem client_lists_acyclic_witness:
  "\<exists>s. run cfg2 fuel [Map_Request 11 (Some False) 0 (Some 1),
          Map_Request 12 (Some False) 0 (Some 2), Map_Request 13 (Some False) 0 (Some 3),
          Destroy_Notify 12] (init_state 1000 900) = Inr s \<and>
      clist (heap s) (head s) [1, 3] \<and>
      (\<exists>as. clist (heap s) (head s) as \<and> distinct as) \<and>
      (\<forall>w<WORKSPACES cfg2. \<exists>as. clist (heap s) (ws_head (workspaces s w)) as \<and> distinct as)"
proof -
  let ?evs = "[Map_Request 11 (Some False) 0 (Some 1), Map_Request 12 (Some False) 0 (Some 2),
    Map_Request 13 (Some False) 0 (Some 3), Destroy_Notify 12]"
  have "\<exists>s. run cfg2 fuel ?evs (init_state 1000 900) = Inr s \<and> clist (heap s) (head s) [1, 3]"
    by (simp add: ev)
  then obtain s where s: "run cfg2 fuel ?evs (init_state 1000 900) = Inr s"
    and l: "clist (heap s) (head s) [1, 3]"
    by blast
  have "list_all create_destroy ?evs"
    by simp
  from client_lists_acyclic [OF s this] s l show ?thesis
    by blast
qed

section \<open>Layouts that return\<close>

lemma get_non_tff_loop_total:
  "clist h p as \<Longrightarrow> length as \<le> n
    \<Longrightarrow> \<exists>k. get_non_tff_loop n h p = Inr k \<and> 0 \<le> k \<and> nat k \<le> length as \<and>
          (\<forall>a c. p = Some a \<and> h a = Some c \<and> \<not> FFT c \<longrightarrow> 1 \<le> k)"
proof (induction as arbitrary: p n)
  case Nil
  then show ?case by simp
next
  case (Cons a as)
  from Cons.prems(2) obtain m where n: "n = Suc m" "length as \<le> m"
    by (cases n) auto
  from Cons.prems(1) obtain c where c: "p = Some a" "h a = Some c" "clist h (nxt c) as"
    by (auto split: option.splits)
  show ?case
  proof (cases "FFT c")
    case True
    with n c show ?thesis by simp
  next
    case False
    from Cons.IH [OF c(3) n(2)] obtain k where "get_non_tff_loop m h (nxt c) = Inr k"
        "0 \<le> k" "nat k \<le> length as"
      by blast
    with False n c show ?thesis
      by (simp add: bnd_def)
  qed
qed

lemma stack_loop_total:
  "clist (heap s) p as \<Longrightarrow> m \<le> length as
    \<Longrightarrow> \<exists>gs. stack_loop cfg s vert cs m p pos = Inr gs"
proof (induction m arbitrary: p as pos)
  case 0
  then show ?case by simp
next
  case (Suc m)
  from Suc.prems(2) obtain a bs where as: "as = a # bs" "m \<le> length bs"
    by (cases as) auto
  with Suc.prems(1) obtain c where c: "p = Some a" "heap s a = Some c"
      "clist (heap s) (nxt c) bs"
    by (auto split: option.splits)
  from Suc.IH [OF c(3) as(2)] obtain gs
    where "stack_loop cfg s vert cs m (nxt c) (pos + (BORDER_PX cfg + cs)) = Inr gs"
    by blast
  with c show ?case
    by (simp add: bnd_def deref_def)
qed

text \<open>\<^verbatim>\<open>stack\<close> returns when the head is neither floating nor transient nor
  fullscreen.\<close>

lemma stack_total:
  assumes l: "clist (heap s) (head s) as" and n: "length as \<le> n"
    and hd: "head s = Some a" "heap s a = Some c" "\<not> FFT c"
  shows "\<exists>gs. stack cfg n s = Inr gs"
proof -
  from get_non_tff_loop_total [OF l n] hd obtain k
    where k: "get_non_tff_loop n (heap s) (head s) = Inr k" and k1: "1 \<le> k"
      and kl: "nat k \<le> length as"
    by blast
  from l hd obtain bs where bs: "as = a # bs" "clist (heap s) (nxt c) bs"
    by (cases as) auto
  with kl k1 have "nat (k - 1) \<le> length bs"
    by simp
  then have sl: "\<exists>gs. bnd (stack_loop cfg s vert cs (nat (k - 1)) (nxt c) pos)
      (\<lambda>gs. Inr (f # gs)) = Inr gs" for vert cs pos and f :: geom
    using stack_loop_total [OF bs(2), of "nat (k - 1)" cfg vert cs pos]
    by (auto simp: bnd_def)
  have d: "deref s (head s) = Inr c"
    by (simp add: deref_def hd)
  from k1 have k0: "k \<noteq> 0"
    by simp
  show ?thesis
    unfolding stack_def Let_def get_non_tff_count_def k bnd_Inr_eq d
    using k0 sl by (cases "nxt c = None") simp_all
qed

lemma layout_handler_total:
  assumes l: "clist (heap s) (head s) as" and n: "length as \<le> n"
    and lay: "can_arrange (heap s) (head s) (layout s)"
  shows "\<exists>gs. layout_handler cfg n (layout s) s = Inr gs"
proof -
  consider "layout s = ZOOM" | "layout s = GRID" | "layout s = FIBONACCI"
    | a c where "layout s = HSTACK \<or> layout s = VSTACK" "head s = Some a"
        "heap s a = Some c" "\<not> FFT c"
    using lay by (auto simp: can_arrange_def split: option.splits)
  then show ?thesis
  proof cases
    case 1
    with zoom_loop_total [OF l n, of cfg] show ?thesis
      by (simp add: layout_handler_def zoom_def layout_ids)
  next
    case 2
    then show ?thesis
      by (simp add: layout_handler_def grid_def)
  next
    case 3
    with clients_from_total [OF l n] show ?thesis
      by (simp add: layout_handler_def fibonacci_def bnd_def layout_ids)
  next
    case 4
    from stack_total [OF l n 4(2-4), of cfg] 4(1) show ?thesis
      by (auto simp: layout_handler_def layout_ids)
  qed
qed

section \<open>Calls that return on a walkable state\<close>

lemma walkable_iff:
  "walkable cfg n s \<longleftrightarrow>
     current_workspace s < WORKSPACES cfg \<and>
     (\<exists>as. clist (heap s) (head s) as \<and> length as \<le> n) \<and>
     (\<forall>w<WORKSPACES cfg. w \<noteq> current_workspace s
        \<longrightarrow> (\<exists>as. clist (heap s) (ws_head (workspaces s w)) as \<and> length as \<le> n))"
proof
  assume w: "walkable cfg n s"
  then have cw: "current_workspace s < WORKSPACES cfg"
    and all: "\<And>w. w < WORKSPACES cfg
      \<Longrightarrow> \<exists>as. clist (heap s) (ws_head (workspaces (flush s) w)) as \<and> length as \<le> n"
    by (simp_all add: walkable_def)
  from all [OF cw] have "\<exists>as. clist (heap s) (head s) as \<and> length as \<le> n"
    by simp
  moreover have "\<exists>as. clist (heap s) (ws_head (workspaces s w)) as \<and> length as \<le> n"
    if "w < WORKSPACES cfg" "w \<noteq> current_workspace s" for w
    using all [OF that(1)] that(2) by simp
  ultimately show "current_workspace s < WORKSPACES cfg \<and>
     (\<exists>as. clist (heap s) (head s) as \<and> length as \<le> n) \<and>
     (\<forall>w<WORKSPACES cfg. w \<noteq> current_workspace s
        \<longrightarrow> (\<exists>as. clist (heap s) (ws_head (workspaces s w)) as \<and> length as \<le> n))"
    using cw by blast
next
  assume r: "current_workspace s < WORKSPACES cfg \<and>
     (\<exists>as. clist (heap s) (head s) as \<and> length as \<le> n) \<and>
     (\<forall>w<WORKSPACES cfg. w \<noteq> current_workspace s
        \<longrightarrow> (\<exists>as. clist (heap s) (ws_head (workspaces s w)) as \<and> length as \<le> n))"
  have "\<exists>as. clist (heap s) (ws_head (workspaces (flush s) w)) as \<and> length as \<le> n"
    if "w < WORKSPACES cfg" for w
    using r that by (cases "w = current_workspace s") simp_all
  with r show "walkable cfg n s"
    by (simp add: walkable_def)
qed

lemma walkable_live:
  assumes "walkable cfg n s" and "clist (heap s) (head s) as"
  shows "length as \<le> n"
proof -
  from assms(1) obtain bs where "clist (heap s) (head s) bs" "length bs \<le> n"
    unfolding walkable_iff by blast
  with clist_unique [OF assms(2) this(1)] show ?thesis
    by simp
qed

lemma walkable_walk:
  assumes "walkable cfg n t" and "v < WORKSPACES cfg"
  shows "\<exists>as. clients_from n (heap t) (ws_head (workspaces (flush t) v)) = Inr as"
proof -
  from assms obtain as where "clist (heap t) (ws_head (workspaces (flush t) v)) as"
      "length as \<le> n"
    unfolding walkable_def by blast
  from clients_from_total [OF this] show ?thesis
    by blast
qed

lemma workspace_info_total:
  assumes w: "walkable cfg n t"
  shows "workspace_info cfg n t = Inr (flush t)"
proof -
  from w have cw: "current_workspace t < WORKSPACES cfg"
    by (simp add: walkable_def)
  then have W: "0 < WORKSPACES cfg"
    by simp
  have "\<exists>r. workspace_info_loop cfg n 0 t = Inr r"
    using cw walkable_walk [OF w] by (intro workspace_info_loop_total) blast+
  then obtain k t1 where loop: "workspace_info_loop cfg n 0 t = Inr (k, t1)"
    by (metis surj_pair)
  from workspace_info_loop_state [OF loop cw] W
  have t1: "t1 = load (WORKSPACES cfg - 1) (flush t)"
    by simp
  with W have "current_workspace t1 < WORKSPACES cfg"
    by simp
  then have "select_workspace cfg (int (current_workspace t)) t1
      = Inr (load (current_workspace t) (flush t1))"
    using cw by (rule select_workspace_valid)
  with loop have "\<exists>s'. workspace_info cfg n t = Inr s'"
    by (simp add: workspace_info_def Let_def bnd_def)
  then obtain s' where r: "workspace_info cfg n t = Inr s'"
    by blast
  with workspace_info_Inr [OF r] show ?thesis
    by simp
qed

lemma arrange_windows_total:
  assumes w: "walkable cfg n t" and l: "clist (heap t) (head t) as"
    and lay: "2 \<le> length as \<longrightarrow> can_arrange (heap t) (head t) (layout t)"
  shows "arrange_windows cfg n t = Inr (if head t = None then t else flush t)"
proof (cases "head t")
  case None
  then show ?thesis
    by (simp add: arrange_windows_def)
next
  case (Some a)
  from walkable_live [OF w l] have n: "length as \<le> n" .
  from Some l obtain b bs where as': "as = b # bs"
    by (cases as) auto
  with l Some have as: "as = a # bs"
    by simp
  from l [unfolded as] obtain hc where hc: "heap t a = Some hc"
    and bs: "clist (heap t) (nxt hc) bs"
    by (cases "heap t a") simp_all
  have idx: "arrange_index t = Inr (if nxt hc \<noteq> None then layout t else ZOOM)"
    by (simp add: arrange_index_def deref_def Some hc bnd_def)
  have "\<exists>gs. layout_handler cfg n (if nxt hc \<noteq> None then layout t else ZOOM) t = Inr gs"
  proof (cases "nxt hc = None")
    case True
    with zoom_loop_total [OF l n, of cfg] show ?thesis
      by (simp add: layout_handler_def zoom_def layout_ids)
  next
    case False
    with bs have "bs \<noteq> []"
      by (cases bs) auto
    with as lay have "can_arrange (heap t) (head t) (layout t)"
      by (cases bs) auto
    from layout_handler_total [OF l n this, of cfg] False show ?thesis
      by auto
  qed
  then obtain gs
    where "layout_handler cfg n (if nxt hc \<noteq> None then layout t else ZOOM) t = Inr gs"
    by blast
  then show ?thesis
    unfolding arrange_windows_def idx bnd_Inr_eq workspace_info_total [OF w]
    by (simp add: Some bnd_Inr_eq)
qed

text \<open>\<^verbatim>\<open>update_focused_client\<close> returns on a walkable state whose layout can be applied,
  when \<^verbatim>\<open>prev_foc\<close> is null or in the list and the candidate is \<^verbatim>\<open>prev_foc\<close> or in the
  list.\<close>

lemma update_focused_client_returns:
  assumes w: "walkable cfg n t" and l: "clist (heap t) (head t) as"
    and lay: "2 \<le> length as \<longrightarrow> can_arrange (heap t) (head t) (layout t)"
    and pf: "prev_foc t = None \<or> prev_foc t \<in> Some ` set as"
    and c: "as \<noteq> [] \<longrightarrow> c = prev_foc t \<or> c \<in> Some ` set as"
  shows "\<exists>t'. update_focused_client cfg n c t = Inr t'"
proof (cases "head t = None")
  case True
  then show ?thesis
    by (simp add: update_focused_client_def)
next
  case False
  from walkable_live [OF w l] have n: "length as \<le> n" .
  from False l have ne: "as \<noteq> []"
    by (cases as) auto
  from clist_head_in [OF l False] have hd: "head t \<in> Some ` set as" .
  define br where "br =
    (if c = prev_foc t
     then (let s1 = t\<lparr>current := (if prev_foc t \<noteq> None then prev_foc t else head t)\<rparr>
           in bnd (prev_client n (current s1) s1) (\<lambda>p. Inr (s1\<lparr>prev_foc := p\<rparr>)))
     else if c \<noteq> current t then Inr (t\<lparr>prev_foc := current t, current := c\<rparr>)
     else Inr t)"
  have "\<exists>s2. br = Inr s2 \<and> heap s2 = heap t \<and> head s2 = head t \<and> layout s2 = layout t \<and>
      workspaces s2 = workspaces t \<and> current_workspace s2 = current_workspace t \<and>
      current s2 \<in> Some ` set as"
  proof (cases "c = prev_foc t")
    case True
    define cur where "cur = (if prev_foc t \<noteq> None then prev_foc t else head t)"
    define s1 where "s1 = t\<lparr>current := cur\<rparr>"
    have cur_in: "cur \<in> Some ` set as"
      using pf hd by (auto simp: cur_def)
    have cs1: "current s1 = cur"
      by (simp add: s1_def)
    have "clist (heap s1) (head s1) as"
      using l by (simp add: s1_def)
    from prev_client_total [OF this n, of cur] ne
    obtain p where p: "prev_client n cur s1 = Inr p"
      by blast
    have "br = Inr (s1\<lparr>prev_foc := p\<rparr>)"
      unfolding br_def Let_def cur_def [symmetric] s1_def [symmetric]
      by (simp add: True cs1 p bnd_def)
    then show ?thesis
      using cur_in by (simp add: s1_def)
  next
    case False
    with c ne have "c \<in> Some ` set as"
      by simp
    with False show ?thesis
      by (cases "c = current t") (simp_all add: br_def)
  qed
  then obtain s2 where br: "br = Inr s2" and same: "heap s2 = heap t" "head s2 = head t"
      "layout s2 = layout t" "workspaces s2 = workspaces t"
      "current_workspace s2 = current_workspace t"
    and cur: "current s2 \<in> Some ` set as"
    by blast
  from l same have l2: "clist (heap s2) (head s2) as"
    by simp
  from w have w2: "walkable cfg n s2"
    unfolding walkable_iff same .
  from lay have lay2: "2 \<le> length as \<longrightarrow> can_arrange (heap s2) (head s2) (layout s2)"
    by (simp add: same)
  from stacking_accesses_total [OF l2 n cur] obtain acc where "stacking_accesses n s2 = Inr acc"
    by blast
  moreover note arrange_windows_total [OF w2 l2 lay2]
  ultimately show ?thesis
    using False br
    by (simp add: update_focused_client_def br_def [symmetric] bnd_def)
qed

text \<open>The focus variables after a call that returns.\<close>

lemma update_focused_client_focus:
  assumes run: "update_focused_client cfg n c t = Inr t'"
    and l: "clist (heap t) (head t) as" and n: "length as \<le> n"
    and pf: "prev_foc t = None \<or> prev_foc t \<in> Some ` set as"
    and c: "as \<noteq> [] \<longrightarrow> c = prev_foc t \<or> c \<in> Some ` set as"
    and cur: "as \<noteq> [] \<longrightarrow> c = prev_foc t \<or> current t \<in> Some ` set as"
  shows "(as \<noteq> [] \<longrightarrow> current t' \<in> Some ` set as) \<and>
         (prev_foc t' = None \<or> prev_foc t' \<in> Some ` set as) \<and> layout t' = layout t"
proof (cases "head t = None")
  case True
  with l have "as = []"
    by (cases as) auto
  with update_focused_client_Inr [OF run] True show ?thesis
    by simp
next
  case False
  with l have ne: "as \<noteq> []"
    by (cases as) auto
  from clist_head_in [OF l False] have hd: "head t \<in> Some ` set as" .
  from update_focused_client_Inr [OF run] False obtain cu p
    where t': "t' = flush (t\<lparr>current := cu, prev_foc := p\<rparr>)"
      and br: "if c = prev_foc t
               then cu = (if prev_foc t \<noteq> None then prev_foc t else head t) \<and>
                    prev_client n cu t = Inr p
               else if c \<noteq> current t then p = current t \<and> cu = c
               else p = prev_foc t \<and> cu = current t"
    by blast
  have "cu \<in> Some ` set as \<and> (p = None \<or> p \<in> Some ` set as)"
  proof (cases "c = prev_foc t")
    case True
    from br have "cu = (if prev_foc t \<noteq> None then prev_foc t else head t) \<and>
        prev_client n cu t = Inr p"
      unfolding True by (rule rev_iffD1) simp
    then have cu: "cu = (if prev_foc t \<noteq> None then prev_foc t else head t)"
      and p: "prev_client n cu t = Inr p"
      by blast+
    from cu pf hd have "cu \<in> Some ` set as"
      by auto
    moreover from prev_client_total [OF l n, of cu] ne p have "p = None \<or> p \<in> Some ` set as"
      by auto
    ultimately show ?thesis
      by simp
  next
    case False
    with br c cur ne pf show ?thesis
      by (cases "c = current t") auto
  qed
  then show ?thesis
    by (simp add: t')
qed

section \<open>Switches that return\<close>

lemma settled_walkable: "settled cfg n s \<Longrightarrow> walkable cfg n s"
  unfolding settled_def walkable_def ws_ok_def by blast

text \<open>\<^verbatim>\<open>change_workspace\<close> to another valid index returns from a settled state, and the
  state it returns is settled.\<close>

lemma change_workspace_total:
  assumes st: "settled cfg n s"
    and j: "0 \<le> j" "j < int (WORKSPACES cfg)" "j \<noteq> int (current_workspace s)"
  shows "\<exists>t. change_workspace cfg n j s = Inr t \<and> settled cfg n t \<and>
           current_workspace t = nat j"
proof -
  let ?i = "current_workspace s"
  define s0 where "s0 = s\<lparr>prev_workspace := ?i\<rparr>"
  define s1 where "s1 = load (nat j) (flush s0)"
  define s2 where "s2 = load ?i s1"
  from st have cw: "?i < WORKSPACES cfg"
    and ok: "\<And>w. w < WORKSPACES cfg \<Longrightarrow> ws_ok n (heap s) (workspaces (flush s) w)"
    by (simp_all add: settled_def)
  have nj: "nat j < WORKSPACES cfg" "nat j \<noteq> ?i" "int (nat j) = j"
    using j by auto
  have fl0: "workspaces (flush s0) = workspaces (flush s)"
    by (simp add: s0_def snapshot_def)
  have s1f: "heap s1 = heap s" "current_workspace s1 = nat j" "prev_workspace s1 = ?i"
      "workspaces s1 = workspaces (flush s)" "flush s1 = s1"
      "head s1 = ws_head (workspaces s (nat j))"
      "current s1 = ws_current (workspaces s (nat j))"
      "prev_foc s1 = ws_prev_foc (workspaces s (nat j))"
      "layout s1 = ws_layout (workspaces s (nat j))"
    using nj(2) by (simp_all add: s1_def s0_def snapshot_def)
  from ok [OF nj(1)] nj(2) have "ws_ok n (heap s) (workspaces s (nat j))"
    by simp
  then obtain as where l1: "clist (heap s1) (head s1) as" and n1: "length as \<le> n"
    and cur1: "as \<noteq> [] \<longrightarrow> current s1 \<in> Some ` set as"
    and pf1: "prev_foc s1 = None \<or> prev_foc s1 \<in> Some ` set as"
    and lay1: "2 \<le> length as \<longrightarrow> can_arrange (heap s1) (head s1) (layout s1)"
    unfolding ws_ok_def s1f by blast
  from ok [OF cw] have "ws_ok n (heap s) (snapshot s)"
    by simp
  then obtain bs where l2: "clist (heap s) (head s) bs" and n2: "length bs \<le> n"
    unfolding ws_ok_def by auto
  have others: "\<exists>cs. clist (heap s) (ws_head (workspaces (flush s) w)) cs \<and> length cs \<le> n"
    if "w < WORKSPACES cfg" for w
    using ok [OF that] unfolding ws_ok_def by blast
  have w1: "walkable cfg n s1"
    unfolding walkable_iff s1f using nj(1) l1 n1 others by (auto simp: s1f)

  \<comment> \<open>the steps of the call\<close>
  have cw0: "current_workspace s0 < WORKSPACES cfg"
    using cw by (simp add: s0_def)
  have sel1: "select_workspace cfg j s0 = Inr s1"
    using select_workspace_valid [OF cw0 nj(1)] unfolding nj(3) s1_def .
  have m1: "clients_from n (heap s1) (head s1) = Inr as"
    using l1 n1 by (rule clients_from_total)
  have sel2: "select_workspace cfg (int (prev_workspace s1)) s1 = Inr s2"
    using select_workspace_valid [of s1 cfg ?i] nj(1) cw by (simp add: s1f s2_def)
  have "heap s2 = heap s" "head s2 = head s"
    by (simp_all add: s2_def s1f)
  with l2 n2 have m2: "clients_from n (heap s2) (head s2) = Inr bs"
    by (simp add: clients_from_total)
  have again: "load (nat j) (flush s2) = s1"
    by (simp add: s2_def s1_def)
  have cw2: "current_workspace s2 < WORKSPACES cfg"
    using cw by (simp add: s2_def)
  have sel3: "select_workspace cfg j s2 = Inr s1"
    using select_workspace_valid [OF cw2 nj(1)] unfolding nj(3) again .
  have aw: "arrange_windows cfg n s1 = Inr s1"
    using arrange_windows_total [OF w1 l1 lay1] by (simp add: s1f)
  have c1: "as \<noteq> [] \<longrightarrow> current s1 = prev_foc s1 \<or> current s1 \<in> Some ` set as"
    using cur1 by simp
  from update_focused_client_returns [OF w1 l1 lay1 pf1 c1]
  obtain s5 where ufc: "update_focused_client cfg n (current s1) s1 = Inr s5"
    by blast
  note frame = update_focused_client_frame [OF ufc]
  from cur1 have cur1': "as \<noteq> [] \<longrightarrow> current s1 = prev_foc s1 \<or> current s1 \<in> Some ` set as"
    by simp
  from update_focused_client_focus [OF ufc l1 n1 pf1 c1 cur1']
  have foc5: "as \<noteq> [] \<longrightarrow> current s5 \<in> Some ` set as"
      "prev_foc s5 = None \<or> prev_foc s5 \<in> Some ` set as" "layout s5 = layout s1"
    by simp_all
  have slots5: "workspaces s5 w = workspaces (flush s) w" if "w \<noteq> nat j" for w
    using frame(4) [of w] that by (simp add: s1f)
  have w5: "walkable cfg n s5"
    unfolding walkable_iff frame(1,2,3) using nj(1) l1 n1 others slots5
    by (auto simp: s1f)
  have wi: "workspace_info cfg n s5 = Inr (flush s5)"
    using w5 by (rule workspace_info_total)
  have guard: "\<not> (j \<ge> int (WORKSPACES cfg) \<or> j < 0 \<or> j = int ?i)"
    using j by simp
  have run: "change_workspace cfg n j s = Inr (flush s5)"
    unfolding change_workspace_def Let_def s0_def [symmetric] if_not_P [OF guard]
      sel1 bnd_Inr_eq m1 sel2 m2 sel3 aw ufc wi
    by (rule refl)

  \<comment> \<open>the state it returns\<close>
  have "ws_ok n (heap (flush s5)) (workspaces (flush (flush s5)) w)" if w: "w < WORKSPACES cfg"
    for w
  proof (cases "w = nat j")
    case True
    have "ws_ok n (heap s1) (snapshot s5)"
      unfolding ws_ok_def using l1 n1 foc5 lay1
      by (intro exI [of _ as]) (simp add: frame)
    with True show ?thesis
      by (simp add: frame s1f)
  next
    case False
    with ok [OF w] slots5 [OF False] show ?thesis
      by (simp add: frame s1f)
  qed
  then have "settled cfg n (flush s5)"
    using nj(1) by (simp add: settled_def frame s1f)
  with run show ?thesis
    by (simp add: frame s1f)
qed

section \<open>Switching to another workspace and back\<close>

text \<open>
  Claim C2, as the code has it. Let workspace \<open>i\<close> be active and \<open>j\<close> another valid
  index. First part: whenever \<^verbatim>\<open>change_workspace(j)\<close> and then \<^verbatim>\<open>change_workspace(i)\<close>
  both return, \<open>i\<close> is active again and the heap, \<^verbatim>\<open>head\<close> and \<^verbatim>\<open>layout\<close> are what they
  were; on a non-empty list whose \<^verbatim>\<open>current\<close> and \<^verbatim>\<open>prev_foc\<close> differ these two are
  restored as well; when they are equal, the closing \<^verbatim>\<open>update_focused_client(current)\<close>
  takes its first branch: \<^verbatim>\<open>current\<close> becomes \<^verbatim>\<open>prev_foc\<close> (the head if that is null) and
  \<^verbatim>\<open>prev_foc\<close> becomes \<^verbatim>\<open>prev_client(current)\<close>; on the empty list both are cleared.
  Second part: the two calls do return from every settled state, that is when every
  workspace has a null-terminated list, a \<^verbatim>\<open>current\<close> in it unless it is empty, a
  \<^verbatim>\<open>prev_foc\<close> that is null or in it, and, with two clients or more, a layout that can
  be applied: \<^verbatim>\<open>ZOOM\<close>, \<^verbatim>\<open>GRID\<close>, \<^verbatim>\<open>FIBONACCI\<close>, or a stack layout with a head that is not
  floating, transient or fullscreen.
\<close>

theorem workspace_round_trip:
  assumes cw: "current_workspace s < WORKSPACES cfg"
    and j: "0 \<le> j" "j < int (WORKSPACES cfg)" "j \<noteq> int (current_workspace s)"
  shows "(\<forall>t u. change_workspace cfg n j s = Inr t \<and>
            change_workspace cfg n (int (current_workspace s)) t = Inr u \<longrightarrow>
            current_workspace u = current_workspace s \<and> heap u = heap s \<and> head u = head s \<and>
            layout u = layout s \<and>
            (if head s = None then current u = None \<and> prev_foc u = None
             else if current s = prev_foc s
                  then current u = (if prev_foc s \<noteq> None then prev_foc s else head s) \<and>
                       prev_client n (current u) s = Inr (prev_foc u)
                  else current u = current s \<and> prev_foc u = prev_foc s)) \<and>
         (settled cfg n s \<longrightarrow>
            (\<exists>t u. change_workspace cfg n j s = Inr t \<and>
               change_workspace cfg n (int (current_workspace s)) t = Inr u))"
proof (rule conjI; intro allI impI)
  fix t u
  assume "change_workspace cfg n j s = Inr t \<and>
    change_workspace cfg n (int (current_workspace s)) t = Inr u"
  then have fwd: "change_workspace cfg n j s = Inr t"
    and bwd: "change_workspace cfg n (int (current_workspace s)) t = Inr u"
    by blast+
  from change_workspace_back_Inr [OF cw j fwd bwd]
  show "current_workspace u = current_workspace s \<and> heap u = heap s \<and> head u = head s \<and>
      layout u = layout s \<and>
      (if head s = None then current u = None \<and> prev_foc u = None
       else if current s = prev_foc s
            then current u = (if prev_foc s \<noteq> None then prev_foc s else head s) \<and>
                 prev_client n (current u) s = Inr (prev_foc u)
            else current u = current s \<and> prev_foc u = prev_foc s)" .
next
  assume st: "settled cfg n s"
  from change_workspace_total [OF st j] obtain t
    where fwd: "change_workspace cfg n j s = Inr t" and st': "settled cfg n t"
      and cwt: "current_workspace t = nat j"
    by blast
  have "0 \<le> int (current_workspace s)" "int (current_workspace s) < int (WORKSPACES cfg)"
      "int (current_workspace s) \<noteq> int (current_workspace t)"
    using cw j by (simp_all add: cwt)
  from change_workspace_total [OF st' this] obtain u
    where "change_workspace cfg n (int (current_workspace s)) t = Inr u"
    by blast
  with fwd show "\<exists>t u. change_workspace cfg n j s = Inr t \<and>
      change_workspace cfg n (int (current_workspace s)) t = Inr u"
    by blast
qed

text \<open>Witness for C2: \<open>three_clients\<close> is settled, workspace 0 is active and the focus
  variables differ; the switches to workspace 1 and back return and restore them.\<close>

theorem workspace_round_trip_witness:
  "\<exists>t u. change_workspace cfg2 fuel 1 three_clients = Inr t \<and>
     change_workspace cfg2 fuel 0 t = Inr u \<and>
     current_workspace u = 0 \<and> heap u = heap three_clients \<and> head u = Some 1 \<and>
     layout u = ZOOM \<and> current u = Some 3 \<and> prev_foc u = Some 2"
proof -
  have s: "current_workspace three_clients < WORKSPACES cfg2" "(0::int) \<le> 1"
      "1 < int (WORKSPACES cfg2)" "1 \<noteq> int (current_workspace three_clients)"
    by (simp_all add: three_clients_def cfg2_def)
  have zero: "int (current_workspace three_clients) = 0"
    by (simp add: three_clients_def)
  have "ws_ok fuel (heap three_clients) (workspaces (flush three_clients) w)" if "w < 2" for w
  proof (cases "w = 0")
    case True
    have "ws_ok fuel (heap three_clients) (snapshot three_clients)"
      unfolding ws_ok_def
      by (intro exI [of _ "[1, 2, 3]"])
        (simp add: three_clients_def tiled_def fuel_def can_arrange_def)
    with True show ?thesis
      by (simp add: three_clients_def)
  next
    case False
    with that have "w = 1"
      by simp
    moreover have "ws_ok fuel (heap three_clients) (workspaces three_clients 1)"
      unfolding ws_ok_def by (intro exI [of _ "[]"]) (simp add: three_clients_def)
    ultimately show ?thesis
      by (simp add: three_clients_def)
  qed
  then have st: "settled cfg2 fuel three_clients"
    by (simp add: settled_def cfg2_def three_clients_def)
  note rt = workspace_round_trip [OF s, of fuel, unfolded zero]
  from rt st obtain t u where t: "change_workspace cfg2 fuel 1 three_clients = Inr t"
    and u: "change_workspace cfg2 fuel 0 t = Inr u"
    by blast
  with rt have "current_workspace u = current_workspace three_clients \<and>
      heap u = heap three_clients \<and> head u = head three_clients \<and>
      layout u = layout three_clients \<and>
      (if head three_clients = None then current u = None \<and> prev_foc u = None
       else if current three_clients = prev_foc three_clients
            then current u = (if prev_foc three_clients \<noteq> None then prev_foc three_clients
                              else head three_clients) \<and>
                 prev_client fuel (current u) three_clients = Inr (prev_foc u)
            else current u = current three_clients \<and> prev_foc u = prev_foc three_clients)"
    by blast
  then have "current_workspace u = 0 \<and> heap u = heap three_clients \<and> head u = Some 1 \<and>
      layout u = ZOOM \<and> current u = Some 3 \<and> prev_foc u = Some 2"
    by (simp add: three_clients_def)
  with t u show ?thesis
    by blast
qed

text \<open>
  Counterexample to C2 as stated: three windows are mapped on workspace 0 and the second
  is destroyed, which leaves \<^verbatim>\<open>current\<close> and \<^verbatim>\<open>prev_foc\<close> both at client 3. The switch to
  workspace 1 and back to 0 ends with \<^verbatim>\<open>prev_foc\<close> at client 1.
\<close>

theorem workspace_round_trip_changes_prev_foc:
  "bnd (run cfg2 fuel [Map_Request 11 (Some False) 0 (Some 1),
          Map_Request 12 (Some False) 0 (Some 2), Map_Request 13 (Some False) 0 (Some 3),
          Destroy_Notify 12] (init_state 1000 900))
     (\<lambda>s. bnd (change_workspace cfg2 fuel 1 s) (\<lambda>t.
        bnd (change_workspace cfg2 fuel 0 t) (\<lambda>u.
          Inr (current_workspace s, current s, prev_foc s,
               current_workspace u, current u, prev_foc u))))
   = Inr (0, Some 3, Some 3, 0, Some 3, Some 1)"
  by (simp add: ev)

text \<open>
  A state that is not settled, reached from program start: on workspace 1 under
  \<^verbatim>\<open>VSTACK\<close>, three windows are mapped, the second one transient, and the first is
  destroyed, which leaves the transient client at the head. The switch to workspace 0
  returns; the switch back divides by zero in \<^verbatim>\<open>stack\<close>.
\<close>

lemma switch_back_can_fault:
  "bnd (run cfg2 fuel [Change_Workspace 1, Change_Layout 3,
          Map_Request 11 (Some False) 0 (Some 1), Map_Request 12 (Some False) 5 (Some 2),
          Map_Request 13 (Some False) 0 (Some 3), Destroy_Notify 11] (init_state 1000 900))
     (\<lambda>s. bnd (change_workspace cfg2 fuel 0 s) (\<lambda>t. change_workspace cfg2 fuel 1 t))
   = Inl Div_By_Zero"
  by (simp add: ev stack_loop_num)

section \<open>Focusing the previous client twice in a row\<close>

text \<open>Two calls of \<^verbatim>\<open>update_focused_client(prev_foc)\<close> in a row return on a walkable
  state whose layout can be applied, when \<^verbatim>\<open>prev_foc\<close> is null or in the list.\<close>

lemma focus_twice_returns:
  assumes w: "walkable cfg n s" and l: "clist (heap s) (head s) as"
    and lay: "2 \<le> length as \<longrightarrow> can_arrange (heap s) (head s) (layout s)"
    and pf: "prev_foc s = None \<or> prev_foc s \<in> Some ` set as"
  shows "\<exists>s1 s2. update_focused_client cfg n (prev_foc s) s = Inr s1 \<and>
           update_focused_client cfg n (prev_foc s1) s1 = Inr s2"
proof -
  from walkable_live [OF w l] have n: "length as \<le> n" .
  have c: "as \<noteq> [] \<longrightarrow> prev_foc s = prev_foc s \<or> prev_foc s \<in> Some ` set as"
    by simp
  from update_focused_client_returns [OF w l lay pf c]
  obtain s1 where c1: "update_focused_client cfg n (prev_foc s) s = Inr s1"
    by blast
  note frame = update_focused_client_frame [OF c1]
  have cur: "as \<noteq> [] \<longrightarrow> prev_foc s = prev_foc s \<or> current s \<in> Some ` set as"
    by simp
  from update_focused_client_focus [OF c1 l n pf c cur]
  have pf1: "prev_foc s1 = None \<or> prev_foc s1 \<in> Some ` set as"
    and lay1: "layout s1 = layout s"
    by simp_all
  have l1: "clist (heap s1) (head s1) as"
    using l by (simp add: frame)
  from w have w1: "walkable cfg n s1"
    unfolding walkable_iff frame(1,2,3) using frame(4) by auto
  have lay1': "2 \<le> length as \<longrightarrow> can_arrange (heap s1) (head s1) (layout s1)"
    using lay by (simp add: frame lay1)
  have c': "as \<noteq> [] \<longrightarrow> prev_foc s1 = prev_foc s1 \<or> prev_foc s1 \<in> Some ` set as"
    by simp
  from update_focused_client_returns [OF w1 l1 lay1' pf1 c']
  obtain s2 where "update_focused_client cfg n (prev_foc s1) s1 = Inr s2"
    by blast
  with c1 show ?thesis
    by blast
qed

text \<open>
  Claim C5, as the code has it. Take a null-terminated list \<open>as\<close> of two or more clients
  and any focus state. First part: whenever two calls of
  \<^verbatim>\<open>update_focused_client(prev_foc)\<close> in a row return, the focus is as follows. If
  \<^verbatim>\<open>prev_foc\<close> was a member other than the head, the first call focuses it and the
  second focuses the client before it in the list. If \<^verbatim>\<open>prev_foc\<close> was the head or null,
  the first call focuses the head and the second the last client. If \<^verbatim>\<open>prev_foc\<close> pointed
  outside the list, the first call focuses that client and the second the last client
  of the list. So the focus is back on the client that had it only if that client is the
  one before \<^verbatim>\<open>prev_foc\<close> (cyclically), as it is when the list has two clients, one
  \<^verbatim>\<open>current\<close> and the other \<^verbatim>\<open>prev_foc\<close>. Second part: the two calls do return when the
  index of the active workspace is valid, every workspace has a null-terminated list,
  the layout can be applied (\<^verbatim>\<open>ZOOM\<close>, \<^verbatim>\<open>GRID\<close>, \<^verbatim>\<open>FIBONACCI\<close>, or a stack layout with a head
  that is not floating, transient or fullscreen) and \<^verbatim>\<open>prev_foc\<close> is null or in the list.
\<close>

theorem focus_toggle_result:
  assumes l: "clist (heap s) (head s) as" and len: "2 \<le> length as"
  shows "(\<forall>s1 s2. update_focused_client cfg n (prev_foc s) s = Inr s1 \<and>
            update_focused_client cfg n (prev_foc s1) s1 = Inr s2 \<longrightarrow>
            (Suc i < length as \<and> prev_foc s = Some (as ! Suc i)
               \<longrightarrow> current s1 = Some (as ! Suc i) \<and> current s2 = Some (as ! i)) \<and>
            (prev_foc s = None \<or> prev_foc s = Some (as ! 0)
               \<longrightarrow> current s1 = Some (as ! 0) \<and> current s2 = Some (last as)) \<and>
            (prev_foc s \<noteq> None \<and> prev_foc s \<notin> Some ` set as
               \<longrightarrow> current s1 = prev_foc s \<and> current s2 = Some (last as)) \<and>
            (length as = 2 \<and> current s \<noteq> prev_foc s \<and>
             current s \<in> Some ` set as \<and> prev_foc s \<in> Some ` set as
               \<longrightarrow> current s2 = current s)) \<and>
         (walkable cfg n s \<and> can_arrange (heap s) (head s) (layout s) \<and>
          (prev_foc s = None \<or> prev_foc s \<in> Some ` set as) \<longrightarrow>
            (\<exists>s1 s2. update_focused_client cfg n (prev_foc s) s = Inr s1 \<and>
               update_focused_client cfg n (prev_foc s1) s1 = Inr s2))"
proof (rule conjI; intro allI impI)
  fix s1 s2
  assume "update_focused_client cfg n (prev_foc s) s = Inr s1 \<and>
    update_focused_client cfg n (prev_foc s1) s1 = Inr s2"
  then have c1: "update_focused_client cfg n (prev_foc s) s = Inr s1"
    and c2: "update_focused_client cfg n (prev_foc s1) s1 = Inr s2"
    by blast+
  from focus_twice_Inr [OF l len c1 c2]
  show "(Suc i < length as \<and> prev_foc s = Some (as ! Suc i)
           \<longrightarrow> current s1 = Some (as ! Suc i) \<and> current s2 = Some (as ! i)) \<and>
        (prev_foc s = None \<or> prev_foc s = Some (as ! 0)
           \<longrightarrow> current s1 = Some (as ! 0) \<and> current s2 = Some (last as)) \<and>
        (prev_foc s \<noteq> None \<and> prev_foc s \<notin> Some ` set as
           \<longrightarrow> current s1 = prev_foc s \<and> current s2 = Some (last as)) \<and>
        (length as = 2 \<and> current s \<noteq> prev_foc s \<and>
         current s \<in> Some ` set as \<and> prev_foc s \<in> Some ` set as
           \<longrightarrow> current s2 = current s)" .
next
  assume a: "walkable cfg n s \<and> can_arrange (heap s) (head s) (layout s) \<and>
    (prev_foc s = None \<or> prev_foc s \<in> Some ` set as)"
  then have "2 \<le> length as \<longrightarrow> can_arrange (heap s) (head s) (layout s)"
    by simp
  with a l show "\<exists>s1 s2. update_focused_client cfg n (prev_foc s) s = Inr s1 \<and>
      update_focused_client cfg n (prev_foc s1) s1 = Inr s2"
    by (intro focus_twice_returns [of cfg n s as]) simp_all
qed

text \<open>Witness for C5: in \<open>three_clients\<close> the focus is on client 3 and \<^verbatim>\<open>prev_foc\<close> is
  client 2; the two calls return and move the focus to 2 and then to 1.\<close>

theorem focus_toggle_result_witness:
  "\<exists>s1 s2. clist (heap three_clients) (head three_clients) [1, 2, 3] \<and>
     update_focused_client cfg2 fuel (prev_foc three_clients) three_clients = Inr s1 \<and>
     update_focused_client cfg2 fuel (prev_foc s1) s1 = Inr s2 \<and>
     current three_clients = Some 3 \<and> current s1 = Some 2 \<and> current s2 = Some 1"
proof -
  have l: "clist (heap three_clients) (head three_clients) [1, 2, 3]"
    by (simp add: three_clients_def tiled_def)
  have len: "2 \<le> length [1, 2, 3 :: addr]"
    by simp
  have "\<exists>as. clist (heap three_clients) (ws_head (workspaces three_clients w)) as \<and>
      length as \<le> fuel" if "w \<noteq> 0" for w
    using that by (intro exI [of _ "[]"]) (simp add: three_clients_def)
  with l have w: "walkable cfg2 fuel three_clients"
    unfolding walkable_iff
    by (auto simp: cfg2_def fuel_def three_clients_def intro: exI [of _ "[1, 2, 3]"])
  have lay: "can_arrange (heap three_clients) (head three_clients) (layout three_clients)"
    by (simp add: can_arrange_def three_clients_def)
  have pf: "prev_foc three_clients = None \<or> prev_foc three_clients \<in> Some ` set [1, 2, 3]"
    by (simp add: three_clients_def)
  note ft = focus_toggle_result [OF l len, of cfg2 fuel 0]
  from ft w lay pf obtain s1 s2
    where c1: "update_focused_client cfg2 fuel (prev_foc three_clients) three_clients = Inr s1"
      and c2: "update_focused_client cfg2 fuel (prev_foc s1) s1 = Inr s2"
    by blast
  have "Suc 0 < length [1, 2, 3 :: addr] \<and> prev_foc three_clients = Some ([1, 2, 3] ! Suc 0)"
    by (simp add: three_clients_def)
  with ft c1 c2 have "current s1 = Some ([1, 2, 3] ! Suc 0) \<and> current s2 = Some ([1, 2, 3] ! 0)"
    by blast
  with l c1 c2 show ?thesis
    by (simp add: three_clients_def)
qed

text \<open>
  Counterexample to C5 as stated: after three windows have been mapped the focus is on
  client 3 and \<^verbatim>\<open>prev_foc\<close> is client 2. Two calls of \<^verbatim>\<open>update_focused_client\<close>, each with
  the \<^verbatim>\<open>prev_foc\<close> of the moment, leave the focus on client 1, not on client 3.
\<close>

theorem focus_toggle_not_symmetric:
  "bnd (run cfg2 fuel [Map_Request 11 (Some False) 0 (Some 1),
          Map_Request 12 (Some False) 0 (Some 2), Map_Request 13 (Some False) 0 (Some 3)]
          (init_state 1000 900))
     (\<lambda>s. bnd (update_focused_client cfg2 fuel (prev_foc s) s) (\<lambda>s1.
        bnd (update_focused_client cfg2 fuel (prev_foc s1) s1) (\<lambda>s2.
          bnd (clients_from fuel (heap s) (head s)) (\<lambda>as.
            Inr (as, current s, prev_foc s, current s1, prev_foc s1, current s2)))))
   = Inr ([1, 2, 3], Some 3, Some 2, Some 2, Some 1, Some 1)"
  by (simp add: ev)

text \<open>
  A list whose layout cannot be applied, reached from program start: on workspace 1
  under \<^verbatim>\<open>VSTACK\<close>, three windows are mapped, the second one transient, and the first is
  destroyed, which leaves the transient client at the head of a list of two. The first
  call of \<^verbatim>\<open>update_focused_client(prev_foc)\<close> divides by zero in \<^verbatim>\<open>stack\<close>.
\<close>

lemma focus_previous_can_fault:
  "bnd (run cfg2 fuel [Change_Workspace 1, Change_Layout 3,
          Map_Request 11 (Some False) 0 (Some 1), Map_Request 12 (Some False) 5 (Some 2),
          Map_Request 13 (Some False) 0 (Some 3), Destroy_Notify 11] (init_state 1000 900))
     (\<lambda>s. update_focused_client cfg2 fuel (prev_foc s) s)
   = Inl Div_By_Zero"
  by (simp add: ev stack_loop_num)

end
